theory Spec2Isabelle
  imports Main
begin

section \<open>Attribute dictionaries and the style table\<close>

text \<open>
  An attribute dictionary of a node, an edge or a (sub)graph is a Python dict from
  attribute names to values; it is embedded as a map. \<open>update_attrs a d\<close> is
  \<^verbatim>\<open>a.update(d)\<close>: every key of \<open>d\<close> is overwritten or added, no key is removed.
\<close>

type_synonym attrs = "string \<rightharpoonup> string"

definition update_attrs :: "attrs \<Rightarrow> attrs \<Rightarrow> attrs" where
  "update_attrs a d = a ++ d"

text \<open>The exceptions the diagram code can raise, as values.\<close>

datatype error =
    ValueError         \<comment> \<open>\<^verbatim>\<open>Machine.get_state\<close> on an unknown state name\<close>
  | AttributeError     \<comment> \<open>missing attribute, or an attribute of \<^verbatim>\<open>None\<close>\<close>
  | KeyError           \<comment> \<open>\<^verbatim>\<open>get_node\<close>/\<open>get_edge\<close> on an absent node or edge\<close>
  | TypeError          \<comment> \<open>\<^verbatim>\<open>attr.update(None)\<close>: the style table has no such role\<close>
  | BackendMissing     \<comment> \<open>\<^verbatim>\<open>Exception('AGraph diagram requires pygraphviz')\<close>\<close>

type_synonym style_table = "string \<rightharpoonup> (string \<rightharpoonup> attrs)"

text \<open>\<^verbatim>\<open>AGraph.machine_attributes\<close> and \<^verbatim>\<open>AGraph.style_attributes\<close>, the class constants.\<close>

definition machine_attributes :: attrs where
  "machine_attributes =
     [''directed'' \<mapsto> ''True'', ''strict'' \<mapsto> ''False'', ''rankdir'' \<mapsto> ''LR'',
      ''ratio'' \<mapsto> ''0.3'']"

definition node_default :: attrs where
  "node_default =
     [''shape'' \<mapsto> ''circle'', ''height'' \<mapsto> ''1.2'', ''style'' \<mapsto> ''filled'',
      ''fillcolor'' \<mapsto> ''white'', ''color'' \<mapsto> ''black'']"

definition node_active :: attrs where
  "node_active =
     [''color'' \<mapsto> ''red'', ''fillcolor'' \<mapsto> ''darksalmon'',
      ''shape'' \<mapsto> ''doublecircle'']"

definition node_previous :: attrs where
  "node_previous = [''color'' \<mapsto> ''blue'', ''fillcolor'' \<mapsto> ''azure2'']"

definition edge_default :: attrs where
  "edge_default = [''color'' \<mapsto> ''black'']"

definition edge_previous :: attrs where
  "edge_previous = [''color'' \<mapsto> ''blue'']"

definition style_attributes :: style_table where
  "style_attributes =
     [''node'' \<mapsto> [''default'' \<mapsto> node_default, ''active'' \<mapsto> node_active,
                  ''previous'' \<mapsto> node_previous],
      ''edge'' \<mapsto> [''default'' \<mapsto> edge_default, ''previous'' \<mapsto> edge_previous]]"

text \<open>\<^verbatim>\<open>table.get(kind, {}).get(style)\<close>: \<open>None\<close> when the kind or the role is absent.\<close>

definition style_get :: "style_table \<Rightarrow> string \<Rightarrow> string \<Rightarrow> attrs option" where
  "style_get table kind style =
     (case table kind of None \<Rightarrow> None | Some d \<Rightarrow> d style)"

section \<open>The abstract graph of the rendering backend\<close>

text \<open>
  Modelled from the spec: the graph object is pygraphviz's \<^verbatim>\<open>AGraph\<close>, which is not part of
  the repository; the spec (sections 3 and 6) lists the primitives the core relies on: add
  node, edge and subgraph, query node and edge existence, get and set attribute
  dictionaries, iterate nodes and edges. The graph is created non-strict and directed
  (\<^verbatim>\<open>machine_attributes\<close>), so \<^verbatim>\<open>add_edge\<close> without a key always makes a new edge, also
  between two nodes that already have one.

  A node has a name and its own attributes; an attribute it does not set reads as the
  graph-wide node default (\<^verbatim>\<open>node_attr\<close>), and as the empty string when there is no such
  default. An edge has source, destination, an optional key and attributes. A cluster is a
  named subgraph with its own graph attributes, the names of the nodes added through it and
  its nested subgraphs; every node of a subgraph is a node of the root graph.
  \<^verbatim>\<open>style_attributes\<close> is the attribute \<^verbatim>\<open>AGraph.get_graph\<close> attaches with \<^verbatim>\<open>setattr\<close>;
  a graph that was not built by it has none.
\<close>

datatype edge = Edge (e_src: string) (e_dst: string) (e_key: "string option") (e_attr: attrs)

datatype cluster =
  Cluster (c_name: string) (c_attr: attrs) (c_nodes: "string list") (c_subs: "cluster list")

record agraph =
  graph_attr :: attrs
  node_attr :: attrs
  nodes :: "(string \<times> attrs) list"
  edges :: "edge list"
  subgraphs :: "cluster list"
  style_attrs :: "style_table option"

definition has_node :: "agraph \<Rightarrow> string \<Rightarrow> bool" where
  "has_node g n = (n \<in> set (map fst (nodes g)))"

definition node_names :: "agraph \<Rightarrow> string list" where
  "node_names g = map fst (nodes g)"

text \<open>
  Modelled from the spec: the attributes a node sets itself, and \<^verbatim>\<open>node.attr\<close> as a dictionary: the node defaults
  overlaid with the node's own settings.
\<close>

definition node_own :: "agraph \<Rightarrow> string \<Rightarrow> attrs" where
  "node_own g n = (case map_of (nodes g) n of None \<Rightarrow> Map.empty | Some a \<Rightarrow> a)"

definition node_attrs :: "agraph \<Rightarrow> string \<Rightarrow> attrs" where
  "node_attrs g n = update_attrs (node_attr g) (node_own g n)"

text \<open>Modelled from the spec: \<^verbatim>\<open>node.attr[k]\<close>.\<close>

definition node_get :: "agraph \<Rightarrow> string \<Rightarrow> string \<Rightarrow> string" where
  "node_get g n k = (case node_attrs g n k of None \<Rightarrow> [] | Some v \<Rightarrow> v)"

text \<open>Modelled from the spec: \<^verbatim>\<open>node.attr.update(d)\<close> on the node named \<open>n\<close>.\<close>

definition update_node :: "string \<Rightarrow> attrs \<Rightarrow> (string \<times> attrs) list \<Rightarrow> (string \<times> attrs) list" where
  "update_node n d ns = map (\<lambda>p. if fst p = n then (fst p, update_attrs (snd p) d) else p) ns"

text \<open>
  Modelled from the spec: \<^verbatim>\<open>add_node(n, **attr)\<close>: a new node is appended; for a node that exists the attributes
  are updated.
\<close>

definition add_node :: "agraph \<Rightarrow> string \<Rightarrow> attrs \<Rightarrow> agraph" where
  "add_node g n a =
     (if has_node g n then g\<lparr>nodes := update_node n a (nodes g)\<rparr>
      else g\<lparr>nodes := nodes g @ [(n, a)]\<rparr>)"

text \<open>Modelled from the spec: \<^verbatim>\<open>has_edge(u, v)\<close> and \<^verbatim>\<open>get_edge(u, v)\<close>: the first edge from \<open>u\<close> to \<open>v\<close>, by position.\<close>

definition is_edge :: "string \<Rightarrow> string \<Rightarrow> edge \<Rightarrow> bool" where
  "is_edge u v e = (e_src e = u \<and> e_dst e = v)"

definition has_edge :: "agraph \<Rightarrow> string \<Rightarrow> string \<Rightarrow> bool" where
  "has_edge g u v = (\<exists>e \<in> set (edges g). is_edge u v e)"

fun find_index_of :: "('a \<Rightarrow> bool) \<Rightarrow> 'a list \<Rightarrow> nat option" where
  "find_index_of P [] = None"
| "find_index_of P (x # xs) =
     (if P x then Some 0 else map_option Suc (find_index_of P xs))"

definition get_edge :: "agraph \<Rightarrow> string \<Rightarrow> string \<Rightarrow> error + nat" where
  "get_edge g u v =
     (case find_index_of (is_edge u v) (edges g) of None \<Rightarrow> Inl KeyError | Some i \<Rightarrow> Inr i)"

text \<open>
  Modelled from the spec: \<^verbatim>\<open>add_edge(u, v, key, **attr)\<close>: both end nodes are added when absent; with a key, an
  edge from \<open>u\<close> to \<open>v\<close> with that key is reused; otherwise a new edge is appended.
\<close>

definition ensure_node :: "agraph \<Rightarrow> string \<Rightarrow> agraph" where
  "ensure_node g n = (if has_node g n then g else g\<lparr>nodes := nodes g @ [(n, Map.empty)]\<rparr>)"

definition same_edge :: "string \<Rightarrow> string \<Rightarrow> string option \<Rightarrow> edge \<Rightarrow> bool" where
  "same_edge u v k e = (is_edge u v e \<and> k \<noteq> None \<and> e_key e = k)"

definition edge_update :: "attrs \<Rightarrow> edge \<Rightarrow> edge" where
  "edge_update d e = Edge (e_src e) (e_dst e) (e_key e) (update_attrs (e_attr e) d)"

definition add_edge :: "agraph \<Rightarrow> string \<Rightarrow> string \<Rightarrow> string option \<Rightarrow> attrs \<Rightarrow> agraph" where
  "add_edge g u v k a =
     (let g1 = ensure_node (ensure_node g u) v
      in case find_index_of (same_edge u v k) (edges g1) of
           Some i \<Rightarrow> g1\<lparr>edges := (edges g1)[i := edge_update a (edges g1 ! i)]\<rparr>
         | None \<Rightarrow> g1\<lparr>edges := edges g1 @ [Edge u v k a]\<rparr>)"

text \<open>Modelled from the spec: \<^verbatim>\<open>get_subgraph(name)\<close> on a graph or subgraph: \<open>None\<close> when there is no such subgraph.\<close>

definition get_subgraph :: "cluster list \<Rightarrow> string \<Rightarrow> cluster option" where
  "get_subgraph cs n = find (\<lambda>c. c_name c = n) cs"

text \<open>
  A subgraph handle is the path of subgraph names that leads to it from the root graph.
  \<open>find_cluster\<close> follows such a path with \<open>get_subgraph\<close>; \<open>update_cluster\<close> changes
  the subgraph at the end of the path in place.
\<close>

fun find_cluster :: "string list \<Rightarrow> cluster list \<Rightarrow> cluster option" where
  "find_cluster [] cs = None"
| "find_cluster [p] cs = get_subgraph cs p"
| "find_cluster (p # q # ps) cs =
     (case get_subgraph cs p of None \<Rightarrow> None | Some c \<Rightarrow> find_cluster (q # ps) (c_subs c))"

fun upd_first :: "('a \<Rightarrow> bool) \<Rightarrow> ('a \<Rightarrow> 'a) \<Rightarrow> 'a list \<Rightarrow> 'a list" where
  "upd_first P f [] = []"
| "upd_first P f (x # xs) = (if P x then f x # xs else x # upd_first P f xs)"

fun update_cluster :: "string list \<Rightarrow> (cluster \<Rightarrow> cluster) \<Rightarrow> cluster list \<Rightarrow> cluster list" where
  "update_cluster [] f cs = cs"
| "update_cluster [p] f cs = upd_first (\<lambda>c. c_name c = p) f cs"
| "update_cluster (p # q # ps) f cs =
     upd_first (\<lambda>c. c_name c = p)
       (\<lambda>c. Cluster (c_name c) (c_attr c) (c_nodes c) (update_cluster (q # ps) f (c_subs c))) cs"

text \<open>
  Modelled from the spec: \<^verbatim>\<open>container.add_subgraph(name=.., **attr)\<close>: the subgraph of that name is created in
  the container when it has none, and its graph attributes are updated.
\<close>

definition add_sub :: "string \<Rightarrow> attrs \<Rightarrow> cluster list \<Rightarrow> cluster list" where
  "add_sub n a cs =
     (if get_subgraph cs n = None then cs @ [Cluster n a [] []]
      else upd_first (\<lambda>c. c_name c = n)
             (\<lambda>c. Cluster (c_name c) (update_attrs (c_attr c) a) (c_nodes c) (c_subs c)) cs)"

definition add_subgraph :: "agraph \<Rightarrow> string list \<Rightarrow> string \<Rightarrow> attrs \<Rightarrow> agraph" where
  "add_subgraph g container n a =
     g\<lparr>subgraphs :=
         (if container = [] then add_sub n a (subgraphs g)
          else update_cluster container
                 (\<lambda>c. Cluster (c_name c) (c_attr c) (c_nodes c) (add_sub n a (c_subs c)))
                 (subgraphs g))\<rparr>"

text \<open>Modelled from the spec: \<^verbatim>\<open>container.add_node(n, **attr)\<close>: the node is a node of the root graph as well.\<close>

definition add_node_in :: "agraph \<Rightarrow> string list \<Rightarrow> string \<Rightarrow> attrs \<Rightarrow> agraph" where
  "add_node_in g container n a =
     (let g1 = add_node g n a
      in if container = [] then g1
         else g1\<lparr>subgraphs :=
                update_cluster container
                  (\<lambda>c. Cluster (c_name c) (c_attr c) (c_nodes c @ [n]) (c_subs c))
                  (subgraphs g1)\<rparr>)"

section \<open>The style applicator\<close>

text \<open>
  \<^verbatim>\<open>GraphMachine.set_node_style(graph, node_name, style)\<close>: \<^verbatim>\<open>get_node\<close> raises
  \<open>KeyError\<close> for an absent node, a graph without a style table raises
  \<open>AttributeError\<close>, and \<^verbatim>\<open>update(None)\<close> raises \<open>TypeError\<close>.
\<close>

definition set_node_style :: "agraph \<Rightarrow> string \<Rightarrow> string \<Rightarrow> error + agraph" where
  "set_node_style graph node_name style =
     (if \<not> has_node graph node_name then Inl KeyError
      else case style_attrs graph of
        None \<Rightarrow> Inl AttributeError
      | Some table \<Rightarrow>
          (case style_get table ''node'' style of
             None \<Rightarrow> Inl TypeError
           | Some style_attr \<Rightarrow>
               Inr (graph\<lparr>nodes := update_node node_name style_attr (nodes graph)\<rparr>)))"

text \<open>
  \<^verbatim>\<open>GraphMachine.set_edge_style(graph, edge, style)\<close>; the edge handle is the position of
  the edge in the graph's edge list.
\<close>

definition set_edge_style :: "agraph \<Rightarrow> nat \<Rightarrow> string \<Rightarrow> error + agraph" where
  "set_edge_style graph edge style =
     (case style_attrs graph of
        None \<Rightarrow> Inl AttributeError
      | Some table \<Rightarrow>
          (case style_get table ''edge'' style of
             None \<Rightarrow> Inl TypeError
           | Some style_attr \<Rightarrow>
               Inr (graph\<lparr>edges := (edges graph)[edge := edge_update style_attr (edges graph ! edge)]\<rparr>)))"

section \<open>The state machine the diagram is drawn from\<close>

text \<open>
  Modelled from the spec: states, events, transitions and the machine are declared in the
  core and nesting modules, which are not among the source files; the spec (sections 3 and
  6) gives their shape. A state of the core machine (\<open>State\<close>) has a name and no
  \<^verbatim>\<open>children\<close> attribute; a nested state has its qualified \<^verbatim>\<open>name\<close>, its own \<^verbatim>\<open>_name\<close>
  and its ordered \<^verbatim>\<open>children\<close>. An event has a name and a dictionary from source state
  names to the transitions from that state; a transition has an optional source, a
  destination and conditions, each a function name with the polarity \<^verbatim>\<open>target\<close>.
\<close>

datatype state =
    State string
  | NestedState string string "state list"

fun name :: "state \<Rightarrow> string" where
  "name (State n) = n"
| "name (NestedState n l cs) = n"

text \<open>\<^verbatim>\<open>hasattr(s, 'children')\<close> and \<^verbatim>\<open>hasattr(s, 'children') and len(s.children) > 0\<close>.\<close>

fun has_children_attr :: "state \<Rightarrow> bool" where
  "has_children_attr (State n) = False"
| "has_children_attr (NestedState n l cs) = True"

fun is_composite :: "state \<Rightarrow> bool" where
  "is_composite (State n) = False"
| "is_composite (NestedState n l cs) = (cs \<noteq> [])"

text \<open>
  \<^verbatim>\<open>while len(s.children) > 0: s = s.children[0]\<close>; a state without the attribute raises
  \<open>AttributeError\<close>.
\<close>

fun descend :: "state \<Rightarrow> error + state" where
  "descend (State n) = Inl AttributeError"
| "descend (NestedState n l []) = Inr (NestedState n l [])"
| "descend (NestedState n l (c # cs)) = descend c"

datatype condition = Condition (func: string) (target: bool)

datatype transition =
  Transition (source: "string option") (dest: string) (conditions: "condition list")

datatype event = Event (ev_name: string) (transitions: "(string \<times> transition list) list")

datatype title = TitleNone | TitleFalse | TitleStr string

record model =
  model_state :: string
  model_graph :: "agraph option"
  has_get_graph :: bool

record machine =
  states :: "(string \<times> state) list"
  events :: "(string \<times> event) list"
  title :: title
  show_conditions :: bool
  show_auto_transitions :: bool
  initial :: string
  models :: "model list"

text \<open>Modelled from the spec: \<^verbatim>\<open>Machine.get_state(name)\<close> raises \<open>ValueError\<close> for a name that is not registered.\<close>

definition get_state :: "machine \<Rightarrow> string \<Rightarrow> error + state" where
  "get_state m n = (case map_of (states m) n of None \<Rightarrow> Inl ValueError | Some s \<Rightarrow> Inr s)"

text \<open>
  Modelled from the spec: \<^verbatim>\<open>NestedState.separator\<close>, declared in the nesting module, is the
  nesting separator on which a qualified name is split; its value there is the underscore.
  \<open>split_on c s\<close> is \<^verbatim>\<open>s.split(c)\<close>.
\<close>

definition separator :: char where
  "separator = CHR ''_''"

fun split_on :: "char \<Rightarrow> string \<Rightarrow> string list" where
  "split_on c [] = [[]]"
| "split_on c (x # xs) =
     (if x = c then [] # split_on c xs
      else (case split_on c xs of [] \<Rightarrow> [[x]] | w # ws \<Rightarrow> (x # w) # ws))"

section \<open>The graph builder\<close>

text \<open>\<^verbatim>\<open>sep.join(xs)\<close>.\<close>

fun join :: "string \<Rightarrow> string list \<Rightarrow> string" where
  "join sep [] = []"
| "join sep [x] = x"
| "join sep (x # y # ys) = x @ sep @ join sep (y # ys)"

text \<open>\<^verbatim>\<open>self.style_attributes['node']['default']['shape']\<close>.\<close>

definition default_shape :: string where
  "default_shape = (case node_default ''shape'' of None \<Rightarrow> [] | Some v \<Rightarrow> v)"

text \<open>
  \<^verbatim>\<open>AGraph._add_nodes(states, container)\<close>, with \<^verbatim>\<open>self.seen\<close> passed along: a state whose
  name was seen is skipped, a state with children becomes a cluster that holds the nodes of
  its children, any other state becomes a node.
\<close>

fun add_nodes :: "state list \<Rightarrow> string list \<Rightarrow> string list \<times> agraph \<Rightarrow> string list \<times> agraph"
and add_nodes_state :: "state \<Rightarrow> string list \<Rightarrow> string list \<times> agraph \<Rightarrow> string list \<times> agraph"
where
  "add_nodes [] container sg = sg"
| "add_nodes (s # ss) container sg = add_nodes ss container (add_nodes_state s container sg)"
| "add_nodes_state (State n) container (seen, g) =
     (if n \<in> set seen then (seen, g)
      else (seen @ [n], add_node_in g container n [''shape'' \<mapsto> default_shape]))"
| "add_nodes_state (NestedState n l []) container (seen, g) =
     (if n \<in> set seen then (seen, g)
      else (seen @ [n], add_node_in g container n [''shape'' \<mapsto> default_shape]))"
| "add_nodes_state (NestedState n l (c # cs)) container (seen, g) =
     (if n \<in> set seen then (seen, g)
      else add_nodes (c # cs) (container @ [''cluster_'' @ l])
             (seen @ [n],
              add_subgraph g container (''cluster_'' @ l) [''label'' \<mapsto> n, ''rank'' \<mapsto> ''same'']))"

text \<open>\<^verbatim>\<open>AGraph._transition_label(edge_label, tran)\<close>.\<close>

definition transition_label :: "machine \<Rightarrow> string \<Rightarrow> transition \<Rightarrow> string" where
  "transition_label m edge_label tran =
     (if show_conditions m \<and> conditions tran \<noteq> []
      then edge_label @ '' ['' @
           join '' & '' (map (\<lambda>c. if target c then func c else ''!'' @ func c) (conditions tran))
           @ '']''
      else edge_label)"

text \<open>\<^verbatim>\<open>edge.attr['label']\<close>: the empty string when the edge has no label.\<close>

definition edge_label_of :: "edge \<Rightarrow> string" where
  "edge_label_of e = (case e_attr e ''label'' of None \<Rightarrow> [] | Some v \<Rightarrow> v)"

text \<open>
  The body of the innermost loop of \<^verbatim>\<open>AGraph._add_edges\<close>, for the resolved source
  \<open>src\<close> and destination \<open>dst\<close> of one transition: the degenerate parent-to-first-child
  edge is omitted, a label is appended to an edge that exists, a new edge is added
  otherwise. \<^verbatim>\<open>has_edge\<close> and \<^verbatim>\<open>get_edge\<close> are one lookup of the first edge between
  the two nodes.
\<close>

definition draw_edge ::
  "string \<Rightarrow> string \<Rightarrow> string \<Rightarrow> string \<Rightarrow> string \<Rightarrow> string \<Rightarrow> string \<Rightarrow> agraph \<Rightarrow> agraph" where
  "draw_edge key tdest src dst edge_label ltail lhead container =
     (if dst = src \<and> key \<noteq> tdest then container
      else case find_index_of (is_edge src dst) (edges container) of
        Some i \<Rightarrow>
          container\<lparr>edges := (edges container)
             [i := edge_update
                     [''label'' \<mapsto> edge_label_of (edges container ! i) @ '' | '' @ edge_label]
                     (edges container ! i)]\<rparr>
      | None \<Rightarrow>
          add_edge container src dst None
            [''label'' \<mapsto> edge_label, ''ltail'' \<mapsto> ltail, ''lhead'' \<mapsto> lhead])"

text \<open>The loop \<^verbatim>\<open>for t in transitions[1]\<close>, with \<open>src\<close> already resolved.\<close>

fun add_edges_from ::
  "machine \<Rightarrow> string \<Rightarrow> string \<Rightarrow> string \<Rightarrow> string \<Rightarrow> transition list \<Rightarrow> agraph \<Rightarrow> error + agraph"
where
  "add_edges_from m label key src ltail [] container = Inr container"
| "add_edges_from m label key src ltail (t # ts) container =
     (case get_state m (dest t) of
        Inl e \<Rightarrow> Inl e
      | Inr dst \<Rightarrow>
          (if is_composite dst
           then (case descend dst of
                   Inl e \<Rightarrow> Inl e
                 | Inr leaf \<Rightarrow>
                     add_edges_from m label key src ltail ts
                       (draw_edge key (dest t) src (name leaf) (transition_label m label t)
                          ltail (''cluster_'' @ name dst) container))
           else add_edges_from m label key src ltail ts
                  (draw_edge key (dest t) src (name dst) (transition_label m label t)
                     ltail [] container)))"

text \<open>\<^verbatim>\<open>src._name\<close> of a nested state; the core's states have no such attribute.\<close>

fun local_name :: "state \<Rightarrow> string" where
  "local_name (State n) = n"
| "local_name (NestedState n l cs) = l"

text \<open>The loop \<^verbatim>\<open>for transitions in event.transitions.items()\<close>.\<close>

fun add_edges_event ::
  "machine \<Rightarrow> string \<Rightarrow> (string \<times> transition list) list \<Rightarrow> agraph \<Rightarrow> error + agraph"
where
  "add_edges_event m label [] container = Inr container"
| "add_edges_event m label (item # rest) container =
     (case get_state m (fst item) of
        Inl e \<Rightarrow> Inl e
      | Inr src \<Rightarrow>
          (case (if is_composite src
                 then (case descend src of
                         Inl e \<Rightarrow> Inl e
                       | Inr leaf \<Rightarrow>
                           add_edges_from m label (fst item) (name leaf)
                             (''cluster_'' @ local_name src) (snd item) container)
                 else add_edges_from m label (fst item) (name src) []
                        (snd item) container) of
             Inl e \<Rightarrow> Inl e
           | Inr container' \<Rightarrow> add_edges_event m label rest container'))"

text \<open>
  The guard of \<^verbatim>\<open>AGraph._add_edges\<close> that leaves an event out: auto transitions are hidden,
  the name starts with \<^verbatim>\<open>to_\<close>, and the event's transition dictionary has as many source
  states as the machine has states.
\<close>

definition suppressed :: "machine \<Rightarrow> event \<Rightarrow> bool" where
  "suppressed m ev =
     (\<not> show_auto_transitions m \<and> take 3 (ev_name ev) = ''to_''
      \<and> length (transitions ev) = length (states m))"

text \<open>\<^verbatim>\<open>AGraph._add_edges(events, container)\<close>, over \<^verbatim>\<open>events.values()\<close>.\<close>

fun add_edges :: "machine \<Rightarrow> event list \<Rightarrow> agraph \<Rightarrow> error + agraph" where
  "add_edges m [] container = Inr container"
| "add_edges m (ev # evs) container =
     (if suppressed m ev then add_edges m evs container
      else case add_edges_event m (ev_name ev) (transitions ev) container of
             Inl e \<Rightarrow> Inl e
           | Inr container' \<Rightarrow> add_edges m evs container')"

text \<open>A value written into an attribute is turned into its string: \<^verbatim>\<open>str(title)\<close>.\<close>

fun title_str :: "title \<Rightarrow> string" where
  "title_str TitleNone = ''None''"
| "title_str TitleFalse = ''False''"
| "title_str (TitleStr s) = s"

text \<open>
  \<^verbatim>\<open>pgv.AGraph(label=title, compound=True, **AGraph.machine_attributes)\<close>, followed by
  \<^verbatim>\<open>node_attr.update(style_attributes['node']['default'])\<close>; \<^verbatim>\<open>directed\<close> and
  \<^verbatim>\<open>strict\<close> are parameters of the constructor, the other entries are graph attributes.
\<close>

definition new_graph :: "title \<Rightarrow> agraph" where
  "new_graph t =
     \<lparr>graph_attr =
        update_attrs [''label'' \<mapsto> title_str t, ''compound'' \<mapsto> ''True'']
          (machine_attributes |` (- {''directed'', ''strict''})),
      node_attr = update_attrs Map.empty node_default,
      nodes = [], edges = [], subgraphs = [], style_attrs = None\<rparr>"

text \<open>
  \<^verbatim>\<open>AGraph(machine).get_graph(title)\<close>; \<open>pgv\<close> tells whether the import of pygraphviz
  succeeded.
\<close>

definition get_graph :: "bool \<Rightarrow> machine \<Rightarrow> title \<Rightarrow> error + agraph" where
  "get_graph pgv m t =
     (if \<not> pgv then Inl BackendMissing
      else let t' = (if t = TitleFalse then TitleStr [] else t);
               fsm_graph = snd (add_nodes (map snd (states m)) [] ([], new_graph t'))
           in case add_edges m (map snd (events m)) fsm_graph of
                Inl e \<Rightarrow> Inl e
              | Inr fsm_graph' \<Rightarrow> Inr (fsm_graph'\<lparr>style_attrs := Some style_attributes\<rparr>))"

section \<open>The graph machine\<close>

text \<open>
  \<^verbatim>\<open>GraphMachine.set_graph_style(graph, item, style)\<close>, where \<open>item\<close> is the subgraph
  reached along a path; the path that leads nowhere stands for \<open>None\<close>, whose attribute
  \<^verbatim>\<open>graph_attr\<close> does not exist. The role is looked up under \<^verbatim>\<open>'node'\<close>;
  \<open>restyle\<close> is \<^verbatim>\<open>item.graph_attr.update(style_attr)\<close>.
\<close>

definition restyle :: "attrs \<Rightarrow> cluster \<Rightarrow> cluster" where
  "restyle style_attr c =
     Cluster (c_name c) (update_attrs (c_attr c) style_attr) (c_nodes c) (c_subs c)"

definition set_graph_style :: "agraph \<Rightarrow> string list \<Rightarrow> string \<Rightarrow> error + agraph" where
  "set_graph_style graph item style =
     (case style_attrs graph of
        None \<Rightarrow> Inl AttributeError
      | Some table \<Rightarrow>
          (case find_cluster item (subgraphs graph) of
             None \<Rightarrow> Inl AttributeError
           | Some sub \<Rightarrow>
               (case style_get table ''node'' style of
                  None \<Rightarrow> Inl TypeError
                | Some style_attr \<Rightarrow>
                    Inr (graph\<lparr>subgraphs :=
                           update_cluster item (restyle style_attr) (subgraphs graph)\<rparr>))))"

text \<open>
  \<^verbatim>\<open>GraphMachine.set_node_state(graph, node_name, state)\<close>: a name that is a node is
  styled as a node; any other name is split on the separator and followed through the
  clusters (\<open>cluster_path\<close> is the path of subgraph names), and the cluster found is
  styled.
\<close>

definition cluster_path :: "string \<Rightarrow> string list" where
  "cluster_path node_name = map (\<lambda>p. ''cluster_'' @ p) (split_on separator node_name)"

definition set_node_state :: "agraph \<Rightarrow> string \<Rightarrow> string \<Rightarrow> error + agraph" where
  "set_node_state graph node_name st =
     (if has_node graph node_name then set_node_style graph node_name st
      else set_graph_style graph (cluster_path node_name) st)"

text \<open>\<^verbatim>\<open>GraphMachine.reset_nodes(graph)\<close>.\<close>

fun reset_loop :: "string list \<Rightarrow> agraph \<Rightarrow> error + agraph" where
  "reset_loop [] graph = Inr graph"
| "reset_loop (n # ns) graph =
     (case set_node_style graph n ''default'' of
        Inl e \<Rightarrow> Inl e
      | Inr graph' \<Rightarrow> reset_loop ns graph')"

definition reset_nodes :: "agraph \<Rightarrow> error + agraph" where
  "reset_nodes graph = reset_loop (node_names graph) graph"

text \<open>
  \<^verbatim>\<open>GraphMachine.set_edge_state(graph, edge_from, edge_to, state, label)\<close>. The third
  positional argument of the backend's \<^verbatim>\<open>add_edge\<close> is the key of the edge, so the label
  that is passed there becomes the key of the edge that is created.
\<close>

fun reset_edges :: "nat list \<Rightarrow> agraph \<Rightarrow> error + agraph" where
  "reset_edges [] graph = Inr graph"
| "reset_edges (e # es) graph =
     (case set_edge_style graph e ''default'' of
        Inl err \<Rightarrow> Inl err
      | Inr graph' \<Rightarrow> reset_edges es graph')"

definition set_edge_state ::
  "machine \<Rightarrow> agraph \<Rightarrow> string \<Rightarrow> string \<Rightarrow> string \<Rightarrow> string option \<Rightarrow> error + agraph" where
  "set_edge_state m graph edge_from edge_to st label =
     (let graph1 = (if \<not> show_auto_transitions m \<and> \<not> has_edge graph edge_from edge_to
                    then add_edge graph edge_from edge_to label Map.empty
                    else graph)
      in case get_edge graph1 edge_from edge_to of
           Inl e \<Rightarrow> Inl e
         | Inr edge \<Rightarrow>
             (case reset_edges [0 ..< length (edges graph1)] graph1 of
                Inl e \<Rightarrow> Inl e
              | Inr graph2 \<Rightarrow> set_edge_style graph2 edge st))"

text \<open>
  \<^verbatim>\<open>GraphMachine._graph_roi(model, title)\<close>. \<^verbatim>\<open>g.edges_iter(active)\<close> yields the edges
  that leave the node, then the edges that enter it from another node.
\<close>

definition incident :: "agraph \<Rightarrow> string \<Rightarrow> edge list" where
  "incident g n =
     filter (\<lambda>e. e_src e = n) (edges g) @ filter (\<lambda>e. e_dst e = n \<and> e_src e \<noteq> n) (edges g)"

definition previous_fillcolor :: string where
  "previous_fillcolor =
     (case node_previous ''fillcolor'' of None \<Rightarrow> [] | Some v \<Rightarrow> v)"

fun roi_loop :: "agraph \<Rightarrow> string \<Rightarrow> edge list \<Rightarrow> agraph \<Rightarrow> agraph" where
  "roi_loop g active [] filtered = filtered"
| "roi_loop g active (t # ts) filtered =
     (if e_src t = active
      then roi_loop g active ts
             (add_edge (add_node filtered (e_dst t) (node_attrs g (e_dst t)))
                (e_src t) (e_dst t) None (e_attr t))
      else if node_get g (e_src t) ''fillcolor'' = previous_fillcolor
      then roi_loop g active ts
             (add_edge (add_node filtered (e_src t) (node_attrs g (e_src t)))
                (e_src t) (e_dst t) None (e_attr t))
      else roi_loop g active ts filtered)"

definition graph_roi :: "bool \<Rightarrow> model \<Rightarrow> title \<Rightarrow> error + agraph" where
  "graph_roi pgv mdl t =
     (case model_graph mdl of
        None \<Rightarrow> Inl AttributeError
      | Some g \<Rightarrow>
          (if \<not> pgv then Inl AttributeError
           else if \<not> has_node g (model_state mdl) then Inl KeyError
           else Inr (roi_loop g (model_state mdl) (incident g (model_state mdl))
                       (add_node (new_graph t) (model_state mdl) (node_attrs g (model_state mdl))))))"

text \<open>
  \<^verbatim>\<open>GraphMachine._get_graph(model, title, force_new, show_roi)\<close>: the model with its
  cached graph, and the graph that is returned.
\<close>

definition get_graph_model ::
  "bool \<Rightarrow> machine \<Rightarrow> model \<Rightarrow> title \<Rightarrow> bool \<Rightarrow> bool \<Rightarrow> error + model \<times> agraph" where
  "get_graph_model pgv m mdl t force_new show_roi =
     (let t' = (if t = TitleNone then title m else t)
      in case (if model_graph mdl = None \<or> force_new
               then (case get_graph pgv m t' of
                       Inl e \<Rightarrow> Inl e
                     | Inr g \<Rightarrow>
                         (case set_node_state g (model_state mdl) ''active'' of
                            Inl e \<Rightarrow> Inl e
                          | Inr g' \<Rightarrow> Inr (mdl\<lparr>model_graph := Some g'\<rparr>)))
               else Inr mdl) of
           Inl e \<Rightarrow> Inl e
         | Inr mdl' \<Rightarrow>
             (if \<not> show_roi
              then (case model_graph mdl' of None \<Rightarrow> Inl AttributeError | Some g \<Rightarrow> Inr (mdl', g))
              else (case graph_roi pgv mdl' t' of
                      Inl e \<Rightarrow> Inl e
                    | Inr roi \<Rightarrow> Inr (mdl', roi))))"

text \<open>
  A call of a method that mutates the machine returns the machine as the call leaves it,
  together with the exception if one was raised: what was registered or rebuilt before the
  exception stays.

  \<open>raised_get_graph\<close> is the model as a raising \<^verbatim>\<open>model.get_graph(force_new=True)\<close> leaves
  it: \<^verbatim>\<open>_get_graph\<close> assigns \<^verbatim>\<open>model.graph\<close> as soon as the builder has returned, before
  it marks the state of the model; when the builder itself raises, the model keeps what it had.
\<close>

definition raised_get_graph :: "bool \<Rightarrow> machine \<Rightarrow> model \<Rightarrow> model" where
  "raised_get_graph pgv m mdl =
     (case get_graph pgv m (title m) of
        Inl e \<Rightarrow> mdl
      | Inr g \<Rightarrow> mdl\<lparr>model_graph := Some g\<rparr>)"

text \<open>
  The loop \<^verbatim>\<open>for model in self.models: model.get_graph(force_new=True)\<close> of
  \<^verbatim>\<open>add_states\<close> and \<^verbatim>\<open>add_transition\<close>. After construction the attribute
  \<^verbatim>\<open>get_graph\<close> of a model is the accessor the constructor bound; a model without it
  raises \<open>AttributeError\<close>. An exception ends the loop: the models after the one that
  raised are not reached.
\<close>

fun rebuild_models :: "bool \<Rightarrow> machine \<Rightarrow> model list \<Rightarrow> error option \<times> model list" where
  "rebuild_models pgv m [] = (None, [])"
| "rebuild_models pgv m (mdl # rest) =
     (if \<not> has_get_graph mdl then (Some AttributeError, mdl # rest)
      else case get_graph_model pgv m mdl TitleNone True False of
             Inl e \<Rightarrow> (Some e, raised_get_graph pgv m mdl # rest)
           | Inr (mdl', g) \<Rightarrow>
               (case rebuild_models pgv m rest of
                  (e, rest') \<Rightarrow> (e, mdl' # rest')))"

text \<open>
  \<^verbatim>\<open>GraphMachine.add_states\<close> and \<^verbatim>\<open>GraphMachine.add_transition\<close>. The call to the base
  class, which is declared in the core module, is the parameter \<open>base\<close>: it returns the
  machine as it leaves it, with the new states or transitions registered, and the exception
  if it raised.
\<close>

definition add_states ::
  "bool \<Rightarrow> (machine \<Rightarrow> error option \<times> machine) \<Rightarrow> machine \<Rightarrow> error option \<times> machine" where
  "add_states pgv base m =
     (case base m of
        (Some e, m') \<Rightarrow> (Some e, m')
      | (None, m') \<Rightarrow>
          (case rebuild_models pgv m' (models m') of
             (e, ms) \<Rightarrow> (e, m'\<lparr>models := ms\<rparr>)))"

definition add_transition ::
  "bool \<Rightarrow> (machine \<Rightarrow> error option \<times> machine) \<Rightarrow> machine \<Rightarrow> error option \<times> machine" where
  "add_transition pgv base m =
     (case base m of
        (Some e, m') \<Rightarrow> (Some e, m')
      | (None, m') \<Rightarrow>
          (case rebuild_models pgv m' (models m') of
             (e, ms) \<Rightarrow> (e, m'\<lparr>models := ms\<rparr>)))"

text \<open>
  The loop \<^verbatim>\<open>for model in self.models\<close> of \<^verbatim>\<open>GraphMachine.__init__\<close>, run on the machine
  the base constructor has set up: a model that already has an attribute \<^verbatim>\<open>get_graph\<close>
  raises \<open>AttributeError\<close>; otherwise the accessor is bound, the graph is built and the
  initial state is marked active.
\<close>

fun init_models :: "bool \<Rightarrow> machine \<Rightarrow> model list \<Rightarrow> error + model list" where
  "init_models pgv m [] = Inr []"
| "init_models pgv m (mdl # rest) =
     (if has_get_graph mdl then Inl AttributeError
      else case get_graph_model pgv m (mdl\<lparr>has_get_graph := True\<rparr>) TitleNone False False of
             Inl e \<Rightarrow> Inl e
           | Inr (mdl', g) \<Rightarrow>
               (case set_node_state g (initial m) ''active'' of
                  Inl e \<Rightarrow> Inl e
                | Inr g' \<Rightarrow>
                    (case init_models pgv m rest of
                       Inl e \<Rightarrow> Inl e
                     | Inr rest' \<Rightarrow> Inr (mdl'\<lparr>model_graph := Some g'\<rparr> # rest'))))"

definition init :: "bool \<Rightarrow> machine \<Rightarrow> error + machine" where
  "init pgv m =
     (case init_models pgv m (models m) of
        Inl e \<Rightarrow> Inl e
      | Inr ms \<Rightarrow> Inr (m\<lparr>models := ms\<rparr>))"

section \<open>The transition hook\<close>

text \<open>
  \<^verbatim>\<open>TransitionGraphSupport._change_state(event_data)\<close> on the graph of the model, up to
  the call of the base class: \<open>self\<close> is the transition, \<open>event_name\<close> is
  \<^verbatim>\<open>event_data.event.name\<close>.
\<close>

definition change_state :: "machine \<Rightarrow> transition \<Rightarrow> string \<Rightarrow> agraph \<Rightarrow> error + agraph" where
  "change_state m self event_name graph0 =
     (case get_state m (dest self) of
        Inl e \<Rightarrow> Inl e
      | Inr dst \<Rightarrow>
     (case reset_nodes graph0 of
        Inl e \<Rightarrow> Inl e
      | Inr graph1 \<Rightarrow>
     (case source self of
        None \<Rightarrow> set_node_state graph1 (name dst) ''active''
      | Some source_name \<Rightarrow>
     (case get_state m source_name of
        Inl e \<Rightarrow> Inl e
      | Inr src \<Rightarrow>
     (case set_node_state graph1 (name src) ''previous'' of
        Inl e \<Rightarrow> Inl e
      | Inr graph2 \<Rightarrow>
     (case (if has_children_attr src
            then (case descend src of
                    Inl e \<Rightarrow> Inl e
                  | Inr src' \<Rightarrow>
                      (case descend dst of Inl e \<Rightarrow> Inl e | Inr dst' \<Rightarrow> Inr (src', dst')))
            else Inr (src, dst)) of
        Inl e \<Rightarrow> Inl e
      | Inr (src', dst') \<Rightarrow>
     (case set_edge_state m graph2 (name src') (name dst') ''previous'' (Some event_name) of
        Inl e \<Rightarrow> Inl e
      | Inr graph3 \<Rightarrow> set_node_state graph3 (name dst') ''active'')))))))"

text \<open>A sequence of transitions of one model, each with the name of its event.\<close>

fun run :: "machine \<Rightarrow> (transition \<times> string) list \<Rightarrow> agraph \<Rightarrow> error + agraph" where
  "run m [] g = Inr g"
| "run m (te # rest) g =
     (case change_state m (fst te) (snd te) g of
        Inl e \<Rightarrow> Inl e
      | Inr g' \<Rightarrow> run m rest g')"

section \<open>Notions the properties are stated with\<close>

text \<open>
  A node carries a role when every attribute of the role's dictionary in
  \<^verbatim>\<open>AGraph.style_attributes\<close> reads with the role's value on the node; an edge likewise.
\<close>

definition has_role :: "agraph \<Rightarrow> string \<Rightarrow> string \<Rightarrow> bool" where
  "has_role g n role =
     (case style_get style_attributes ''node'' role of
        None \<Rightarrow> False
      | Some d \<Rightarrow> (\<forall>k \<in> dom d. node_attrs g n k = d k))"

definition edge_has_role :: "edge \<Rightarrow> string \<Rightarrow> bool" where
  "edge_has_role e role =
     (case style_get style_attributes ''edge'' role of
        None \<Rightarrow> False
      | Some d \<Rightarrow> (\<forall>k \<in> dom d. e_attr e k = d k))"

text \<open>The same for a cluster, whose graph attributes take the dictionary of a node role.\<close>

definition cluster_has_role :: "cluster \<Rightarrow> string \<Rightarrow> bool" where
  "cluster_has_role c role =
     (case style_get style_attributes ''node'' role of
        None \<Rightarrow> False
      | Some d \<Rightarrow> (\<forall>k \<in> dom d. c_attr c k = d k))"

definition active_nodes :: "agraph \<Rightarrow> string list" where
  "active_nodes g = filter (\<lambda>n. has_role g n ''active'') (node_names g)"

text \<open>
  What every graph that \<^verbatim>\<open>AGraph.get_graph\<close> returns satisfies, and every update keeps:
  the style table is attached, the node defaults are the default node style, node names are
  unique and both ends of every edge are nodes.
\<close>

definition graph_ok :: "agraph \<Rightarrow> bool" where
  "graph_ok g =
     (style_attrs g = Some style_attributes \<and> node_attr g = node_default
      \<and> distinct (node_names g)
      \<and> (\<forall>e \<in> set (edges g). has_node g (e_src e) \<and> has_node g (e_dst e)))"

text \<open>
  The names between which \<^verbatim>\<open>_change_state\<close> looks the edge up, for a transition with a
  source: both states are followed to their first leaf when the source has the attribute
  \<^verbatim>\<open>children\<close>, and taken as they are otherwise.
\<close>

definition resolved :: "machine \<Rightarrow> string \<Rightarrow> string \<Rightarrow> error + string \<times> string" where
  "resolved m source_name dest_name =
     (case get_state m dest_name of
        Inl e \<Rightarrow> Inl e
      | Inr dst \<Rightarrow>
          (case get_state m source_name of
             Inl e \<Rightarrow> Inl e
           | Inr src \<Rightarrow>
               (if has_children_attr src
                then (case descend src of
                        Inl e \<Rightarrow> Inl e
                      | Inr src' \<Rightarrow>
                          (case descend dst of
                             Inl e \<Rightarrow> Inl e
                           | Inr dst' \<Rightarrow> Inr (name src', name dst')))
                else Inr (name src, name dst))))"

text \<open>
  The graph in which \<^verbatim>\<open>set_edge_state\<close> looks the edge up: the edge is added first,
  with its end nodes, when auto transitions are hidden and the graph has no such edge.
\<close>

definition lazy_edge :: "machine \<Rightarrow> agraph \<Rightarrow> string \<Rightarrow> string \<Rightarrow> string option \<Rightarrow> agraph" where
  "lazy_edge m g u v lbl =
     (if \<not> show_auto_transitions m \<and> \<not> has_edge g u v
      then (ensure_node (ensure_node g u) v)\<lparr>edges := edges g @ [Edge u v lbl Map.empty]\<rparr>
      else g)"

text \<open>
  The graph after \<^verbatim>\<open>reset_nodes\<close>, and after the source of a transition was then marked
  with \<^verbatim>\<open>set_node_state(graph, source.name, 'previous')\<close>.
\<close>

definition reset_graph :: "agraph \<Rightarrow> agraph" where
  "reset_graph g = g\<lparr>nodes := map (\<lambda>p. (fst p, update_attrs (snd p) node_default)) (nodes g)\<rparr>"

definition mark_previous :: "agraph \<Rightarrow> string \<Rightarrow> agraph" where
  "mark_previous g n =
     (if has_node g n then g\<lparr>nodes := update_node n node_previous (nodes g)\<rparr>
      else g\<lparr>subgraphs := update_cluster (cluster_path n) (restyle node_previous) (subgraphs g)\<rparr>)"

text \<open>
  How \<^verbatim>\<open>_graph_roi\<close> reads the previous role off a node: by its fill colour. \<open>roi_keep\<close>
  is the test under which an edge at the active node is taken over, \<open>roi_new\<close> the node
  that is added with it, and \<open>roi_edge\<close> the edge as it is added, without its key.
\<close>

definition marked_previous :: "agraph \<Rightarrow> string \<Rightarrow> bool" where
  "marked_previous g n = (node_get g n ''fillcolor'' = previous_fillcolor)"

definition roi_keep :: "agraph \<Rightarrow> string \<Rightarrow> edge \<Rightarrow> bool" where
  "roi_keep g active t = (e_src t = active \<or> marked_previous g (e_src t))"

definition roi_new :: "string \<Rightarrow> edge \<Rightarrow> string" where
  "roi_new active t = (if e_src t = active then e_dst t else e_src t)"

definition roi_edge :: "edge \<Rightarrow> edge" where
  "roi_edge t = Edge (e_src t) (e_dst t) None (e_attr t)"

text \<open>Both ends of every edge are nodes, as in every graph of the backend.\<close>

definition edges_closed :: "agraph \<Rightarrow> bool" where
  "edges_closed g = (\<forall>e \<in> set (edges g). has_node g (e_src e) \<and> has_node g (e_dst e))"

text \<open>
  The transitions of the events as the edge loops of the builder meet them, each with the
  key of its dictionary entry, its destination as written, the names of the leaves its
  source and destination resolve to, its label and the cluster markers. The events that are
  suppressed contribute none. A resolved transition is degenerate when the builder omits
  it: the leaves coincide and the names as written differ.
\<close>

datatype rtrans =
  RTrans (rt_key: string) (rt_dest: string) (rt_src: string) (rt_dst: string)
         (rt_label: string) (rt_ltail: string) (rt_lhead: string)

fun resolve_from ::
  "machine \<Rightarrow> string \<Rightarrow> string \<Rightarrow> string \<Rightarrow> string \<Rightarrow> transition list \<Rightarrow> error + rtrans list"
where
  "resolve_from m label key src ltail [] = Inr []"
| "resolve_from m label key src ltail (t # ts) =
     (case get_state m (dest t) of
        Inl e \<Rightarrow> Inl e
      | Inr dst \<Rightarrow>
          (case (if is_composite dst
                 then (case descend dst of
                         Inl e \<Rightarrow> Inl e
                       | Inr leaf \<Rightarrow> Inr (name leaf, ''cluster_'' @ name dst))
                 else Inr (name dst, [])) of
             Inl e \<Rightarrow> Inl e
           | Inr (d, lhead) \<Rightarrow>
               (case resolve_from m label key src ltail ts of
                  Inl e \<Rightarrow> Inl e
                | Inr rs \<Rightarrow>
                    Inr (RTrans key (dest t) src d (transition_label m label t) ltail lhead # rs))))"

fun resolve_event ::
  "machine \<Rightarrow> string \<Rightarrow> (string \<times> transition list) list \<Rightarrow> error + rtrans list"
where
  "resolve_event m label [] = Inr []"
| "resolve_event m label (item # rest) =
     (case get_state m (fst item) of
        Inl e \<Rightarrow> Inl e
      | Inr src \<Rightarrow>
          (case (if is_composite src
                 then (case descend src of
                         Inl e \<Rightarrow> Inl e
                       | Inr leaf \<Rightarrow>
                           resolve_from m label (fst item) (name leaf)
                             (''cluster_'' @ local_name src) (snd item))
                 else resolve_from m label (fst item) (name src) [] (snd item)) of
             Inl e \<Rightarrow> Inl e
           | Inr rs \<Rightarrow>
               (case resolve_event m label rest of
                  Inl e \<Rightarrow> Inl e
                | Inr rs' \<Rightarrow> Inr (rs @ rs'))))"

fun resolve_events :: "machine \<Rightarrow> event list \<Rightarrow> error + rtrans list" where
  "resolve_events m [] = Inr []"
| "resolve_events m (ev # evs) =
     (if suppressed m ev then resolve_events m evs
      else case resolve_event m (ev_name ev) (transitions ev) of
             Inl e \<Rightarrow> Inl e
           | Inr rs \<Rightarrow>
               (case resolve_events m evs of
                  Inl e \<Rightarrow> Inl e
                | Inr rs' \<Rightarrow> Inr (rs @ rs')))"

definition degenerate :: "rtrans \<Rightarrow> bool" where
  "degenerate r = (rt_dst r = rt_src r \<and> rt_key r \<noteq> rt_dest r)"

definition drawn :: "rtrans list \<Rightarrow> rtrans list" where
  "drawn rs = filter (\<lambda>r. \<not> degenerate r) rs"

definition rt_pair :: "rtrans \<Rightarrow> string \<times> string" where
  "rt_pair r = (rt_src r, rt_dst r)"

definition e_pair :: "edge \<Rightarrow> string \<times> string" where
  "e_pair e = (e_src e, e_dst e)"

text \<open>The labels of the transitions among \<open>rs\<close> that resolve to the pair \<open>p\<close>, in order.\<close>

definition labels_for :: "rtrans list \<Rightarrow> string \<times> string \<Rightarrow> string list" where
  "labels_for rs p = map rt_label (filter (\<lambda>r. rt_pair r = p) rs)"

definition draw :: "rtrans \<Rightarrow> agraph \<Rightarrow> agraph" where
  "draw r g =
     draw_edge (rt_key r) (rt_dest r) (rt_src r) (rt_dst r) (rt_label r) (rt_ltail r) (rt_lhead r) g"

text \<open>All resolved transitions of a machine, in the order of the builder.\<close>

definition resolved_transitions :: "machine \<Rightarrow> error + rtrans list" where
  "resolved_transitions m = resolve_events m (map snd (events m))"

text \<open>The label of the edge of the graph between a pair of nodes, if there is one.\<close>

definition label_at :: "agraph \<Rightarrow> string \<times> string \<Rightarrow> string option" where
  "label_at g p = map_option edge_label_of (find (\<lambda>e. e_pair e = p) (edges g))"



section \<open>Concrete graphs and machines\<close>

text \<open>A graph with one node that sets a shape of its own, and one labelled self-loop.\<close>

definition g_frame :: agraph where
  "g_frame =
     \<lparr>graph_attr = Map.empty, node_attr = node_default,
      nodes = [(''A'', [''shape'' \<mapsto> ''box'', ''color'' \<mapsto> ''black''])],
      edges = [Edge ''A'' ''A'' None [''label'' \<mapsto> ''go'', ''color'' \<mapsto> ''black'']],
      subgraphs = [], style_attrs = Some style_attributes\<rparr>"

text \<open>
  A flat machine with the states A, B and C and the event \<^verbatim>\<open>go\<close> from A to B and from
  B to C, and the graph \<^verbatim>\<open>AGraph.get_graph\<close> builds for it.
\<close>

definition m_abc :: machine where
  "m_abc =
     \<lparr>states = [(''A'', State ''A''), (''B'', State ''B''), (''C'', State ''C'')],
      events = [(''go'', Event ''go'' [(''A'', [Transition (Some ''A'') ''B'' []]),
                                       (''B'', [Transition (Some ''B'') ''C'' []])])],
      title = TitleStr ''M'', show_conditions = False, show_auto_transitions = False,
      initial = ''A'', models = []\<rparr>"

definition g_abc :: agraph where
  "g_abc =
     \<lparr>graph_attr = [''label'' \<mapsto> ''M'', ''compound'' \<mapsto> ''True'', ''rankdir'' \<mapsto> ''LR'',
                     ''ratio'' \<mapsto> ''0.3''],
      node_attr = node_default,
      nodes = [(''A'', [''shape'' \<mapsto> ''circle'']), (''B'', [''shape'' \<mapsto> ''circle'']),
               (''C'', [''shape'' \<mapsto> ''circle''])],
      edges = [Edge ''A'' ''B'' None [''label'' \<mapsto> ''go'', ''ltail'' \<mapsto> [], ''lhead'' \<mapsto> []],
               Edge ''B'' ''C'' None [''label'' \<mapsto> ''go'', ''ltail'' \<mapsto> [], ''lhead'' \<mapsto> []]],
      subgraphs = [], style_attrs = Some style_attributes\<rparr>"

text \<open>
  A nested machine: the composite state P with the single child \<^verbatim>\<open>P_1\<close>, the leaf X, and
  the event \<^verbatim>\<open>go\<close> from P to X; and its graph, in which P is a cluster.
\<close>

definition m_nest :: machine where
  "m_nest =
     \<lparr>states = [(''P'', NestedState ''P'' ''P'' [NestedState ''P_1'' ''1'' []]),
                (''P_1'', NestedState ''P_1'' ''1'' []),
                (''X'', NestedState ''X'' ''X'' [])],
      events = [(''go'', Event ''go'' [(''P'', [Transition (Some ''P'') ''X'' []])])],
      title = TitleStr ''M'', show_conditions = False, show_auto_transitions = False,
      initial = ''P'', models = []\<rparr>"

definition g_nest :: agraph where
  "g_nest =
     \<lparr>graph_attr = [''label'' \<mapsto> ''M'', ''compound'' \<mapsto> ''True'', ''rankdir'' \<mapsto> ''LR'',
                     ''ratio'' \<mapsto> ''0.3''],
      node_attr = node_default,
      nodes = [(''P_1'', [''shape'' \<mapsto> ''circle'']), (''X'', [''shape'' \<mapsto> ''circle''])],
      edges = [Edge ''P_1'' ''X'' None
                 [''label'' \<mapsto> ''go'', ''ltail'' \<mapsto> ''cluster_P'', ''lhead'' \<mapsto> []]],
      subgraphs = [Cluster ''cluster_P'' [''label'' \<mapsto> ''P'', ''rank'' \<mapsto> ''same''] [''P_1''] []],
      style_attrs = Some style_attributes\<rparr>"

text \<open>
  A machine in which two events, \<^verbatim>\<open>go\<close> and \<^verbatim>\<open>stop\<close>, lead from A to B, and its graph:
  the one edge carries both labels.
\<close>

definition m_two :: machine where
  "m_two =
     \<lparr>states = [(''A'', State ''A''), (''B'', State ''B'')],
      events = [(''go'', Event ''go'' [(''A'', [Transition (Some ''A'') ''B'' []])]),
                (''stop'', Event ''stop'' [(''A'', [Transition (Some ''A'') ''B'' []])])],
      title = TitleStr ''M'', show_conditions = False, show_auto_transitions = False,
      initial = ''A'', models = []\<rparr>"

definition g_two :: agraph where
  "g_two =
     \<lparr>graph_attr = [''label'' \<mapsto> ''M'', ''compound'' \<mapsto> ''True'', ''rankdir'' \<mapsto> ''LR'',
                     ''ratio'' \<mapsto> ''0.3''],
      node_attr = node_default,
      nodes = [(''A'', [''shape'' \<mapsto> ''circle'']), (''B'', [''shape'' \<mapsto> ''circle''])],
      edges = [Edge ''A'' ''B'' None
                 [''ltail'' \<mapsto> [], ''lhead'' \<mapsto> [], ''label'' \<mapsto> ''go | stop'']],
      subgraphs = [], style_attrs = Some style_attributes\<rparr>"

text \<open>
  A nested machine that shows auto transitions, with a transition from the composite state
  P to its first child; the builder omits that edge, so the graph has none.
\<close>

definition m_loop :: machine where
  "m_loop =
     \<lparr>states = [(''P'', NestedState ''P'' ''P'' [NestedState ''P_1'' ''1'' []]),
                (''P_1'', NestedState ''P_1'' ''1'' [])],
      events = [(''enter'', Event ''enter'' [(''P'', [Transition (Some ''P'') ''P_1'' []])])],
      title = TitleStr ''M'', show_conditions = False, show_auto_transitions = True,
      initial = ''P'', models = []\<rparr>"

definition g_loop :: agraph where
  "g_loop =
     \<lparr>graph_attr = [''label'' \<mapsto> ''M'', ''compound'' \<mapsto> ''True'', ''rankdir'' \<mapsto> ''LR'',
                     ''ratio'' \<mapsto> ''0.3''],
      node_attr = node_default,
      nodes = [(''P_1'', [''shape'' \<mapsto> ''circle''])],
      edges = [],
      subgraphs = [Cluster ''cluster_P'' [''label'' \<mapsto> ''P'', ''rank'' \<mapsto> ''same''] [''P_1''] []],
      style_attrs = Some style_attributes\<rparr>"

text \<open>The machine \<open>m_two\<close> with one model that already has an attribute \<^verbatim>\<open>get_graph\<close>.\<close>

definition m_bound :: machine where
  "m_bound = m_two\<lparr>models := [\<lparr>model_state = ''A'', model_graph = None, has_get_graph = True\<rparr>]\<rparr>"





text \<open>
  A graph in which A carries the previous role, B the active one and C the default one, with
  the edges from A to B, from B to C and from C to B; and a model in state B that holds it.
\<close>

definition g_roi :: agraph where
  "g_roi =
     \<lparr>graph_attr = Map.empty, node_attr = node_default,
      nodes = [(''A'', node_previous), (''B'', node_active), (''C'', Map.empty)],
      edges = [Edge ''A'' ''B'' None [''label'' \<mapsto> ''go''],
               Edge ''B'' ''C'' None [''label'' \<mapsto> ''go''],
               Edge ''C'' ''B'' None [''label'' \<mapsto> ''back'']],
      subgraphs = [], style_attrs = Some style_attributes\<rparr>"

definition mdl_roi :: model where
  "mdl_roi = \<lparr>model_state = ''B'', model_graph = Some g_roi, has_get_graph = True\<rparr>"

text \<open>
  Two flat machines with the blanket event \<^verbatim>\<open>to_B\<close>, one transition from each of the states
  A and B: \<open>m_to\<close> shows auto transitions, \<open>m_auto\<close> hides them and has the event
  \<^verbatim>\<open>go\<close> from A to B as well. And a nested machine that shows auto transitions, with the
  blanket event \<^verbatim>\<open>to_X\<close> from the composite P, its child and X.
\<close>

definition to_B :: event where
  "to_B = Event ''to_B'' [(''A'', [Transition (Some ''A'') ''B'' []]),
                           (''B'', [Transition (Some ''B'') ''B'' []])]"

definition m_to :: machine where
  "m_to =
     \<lparr>states = [(''A'', State ''A''), (''B'', State ''B'')],
      events = [(''to_B'', to_B)],
      title = TitleStr ''M'', show_conditions = False, show_auto_transitions = True,
      initial = ''A'', models = []\<rparr>"

definition m_auto :: machine where
  "m_auto =
     \<lparr>states = [(''A'', State ''A''), (''B'', State ''B'')],
      events = [(''to_B'', to_B),
                (''go'', Event ''go'' [(''A'', [Transition (Some ''A'') ''B'' []])])],
      title = TitleStr ''M'', show_conditions = False, show_auto_transitions = False,
      initial = ''A'', models = []\<rparr>"

definition to_X :: event where
  "to_X = Event ''to_X'' [(''P'', [Transition (Some ''P'') ''X'' []]),
                           (''P_1'', [Transition (Some ''P_1'') ''X'' []]),
                           (''X'', [Transition (Some ''X'') ''X'' []])]"

definition m_fan :: machine where
  "m_fan =
     \<lparr>states = [(''P'', NestedState ''P'' ''P'' [NestedState ''P_1'' ''1'' []]),
                (''P_1'', NestedState ''P_1'' ''1'' []),
                (''X'', NestedState ''X'' ''X'' [])],
      events = [(''to_X'', to_X)],
      title = TitleStr ''M'', show_conditions = False, show_auto_transitions = True,
      initial = ''P'', models = []\<rparr>"

lemmas eval_defs =
  update_attrs_def machine_attributes_def node_default_def node_active_def
  node_previous_def edge_default_def edge_previous_def style_attributes_def style_get_def
  has_node_def node_names_def node_own_def node_attrs_def node_get_def update_node_def
  add_node_def is_edge_def has_edge_def get_edge_def ensure_node_def same_edge_def
  edge_update_def add_edge_def set_node_style_def set_edge_style_def get_subgraph_def
  add_sub_def add_subgraph_def add_node_in_def get_state_def separator_def
  transition_label_def edge_label_of_def draw_edge_def suppressed_def new_graph_def
  get_graph_def set_graph_style_def set_node_state_def reset_nodes_def set_edge_state_def
  incident_def previous_fillcolor_def graph_roi_def get_graph_model_def raised_get_graph_def add_states_def
  add_transition_def init_def change_state_def has_role_def edge_has_role_def
  cluster_has_role_def active_nodes_def graph_ok_def resolved_def cluster_path_def
  restyle_def lazy_edge_def reset_graph_def mark_previous_def default_shape_def

section \<open>Properties\<close>

subsection \<open>Attribute updates and the style functions\<close>

lemma update_attrs_other: "d k = None \<Longrightarrow> update_attrs a d k = a k"
  by (simp add: update_attrs_def map_add_def)

lemma update_attrs_key: "d k = Some v \<Longrightarrow> update_attrs a d k = Some v"
  by (simp add: update_attrs_def)

lemma map_of_update_node_same:
  "map_of (update_node n d ns) n = map_option (\<lambda>a. update_attrs a d) (map_of ns n)"
  unfolding update_node_def by (induction ns) auto

lemma map_of_update_node_other:
  "n' \<noteq> n \<Longrightarrow> map_of (update_node n d ns) n' = map_of ns n'"
  unfolding update_node_def by (induction ns) auto

lemma map_fst_update_node: "map fst (update_node n d ns) = map fst ns"
  unfolding update_node_def by (induction ns) auto

lemma set_node_style_Inr:
  assumes "set_node_style g n st = Inr g'"
  obtains table d where "style_attrs g = Some table" "style_get table ''node'' st = Some d"
    "has_node g n" "g' = g\<lparr>nodes := update_node n d (nodes g)\<rparr>"
  using assms unfolding set_node_style_def
  by (auto split: if_splits option.splits)

lemma set_edge_style_Inr:
  assumes "set_edge_style g i st = Inr g'"
  obtains table d where "style_attrs g = Some table" "style_get table ''edge'' st = Some d"
    "g' = g\<lparr>edges := (edges g)[i := edge_update d (edges g ! i)]\<rparr>"
  using assms unfolding set_edge_style_def
  by (auto split: if_splits option.splits)

lemma set_graph_style_Inr:
  assumes "set_graph_style g item st = Inr g'"
  obtains table d sub where "style_attrs g = Some table" "style_get table ''node'' st = Some d"
    "find_cluster item (subgraphs g) = Some sub"
    "g' = g\<lparr>subgraphs := update_cluster item (restyle d) (subgraphs g)\<rparr>"
  using assms unfolding set_graph_style_def
  by (auto split: if_splits option.splits)

lemma style_get_node_default: "style_get style_attributes ''node'' ''default'' = Some node_default"
  by (simp add: style_get_def style_attributes_def)
lemma style_get_node_active: "style_get style_attributes ''node'' ''active'' = Some node_active"
  by (simp add: style_get_def style_attributes_def)
lemma style_get_node_previous: "style_get style_attributes ''node'' ''previous'' = Some node_previous"
  by (simp add: style_get_def style_attributes_def)
lemma style_get_edge_default: "style_get style_attributes ''edge'' ''default'' = Some edge_default"
  by (simp add: style_get_def style_attributes_def)
lemma style_get_edge_previous: "style_get style_attributes ''edge'' ''previous'' = Some edge_previous"
  by (simp add: style_get_def style_attributes_def)

subsection \<open>Resetting the nodes and the edges\<close>

text \<open>
  On a graph with the style table and unique node names, \<^verbatim>\<open>reset_nodes\<close> updates every
  node with the default style, and the reset loop of \<^verbatim>\<open>set_edge_state\<close> every edge.
\<close>

lemma reset_loop_ok:
  assumes "style_attrs g = Some style_attributes" "set ns \<subseteq> set (node_names g)" "distinct ns"
  shows "reset_loop ns g =
     Inr (g\<lparr>nodes := map (\<lambda>p. if fst p \<in> set ns then (fst p, update_attrs (snd p) node_default) else p) (nodes g)\<rparr>)"
  using assms
proof (induction ns arbitrary: g)
  case Nil
  then show ?case by simp
next
  case (Cons n ns)
  let ?g1 = "g\<lparr>nodes := update_node n node_default (nodes g)\<rparr>"
  have s: "set_node_style g n ''default'' = Inr ?g1"
    using Cons.prems by (simp add: set_node_style_def has_node_def node_names_def style_get_node_default)
  have ih: "reset_loop ns ?g1 = Inr (?g1\<lparr>nodes := map (\<lambda>p. if fst p \<in> set ns then (fst p, update_attrs (snd p) node_default) else p) (nodes ?g1)\<rparr>)"
    using Cons.prems by (intro Cons.IH) (auto simp: node_names_def map_fst_update_node)
  have "map (\<lambda>p. if fst p \<in> set ns then (fst p, update_attrs (snd p) node_default) else p) (update_node n node_default (nodes g))
      = map (\<lambda>p. if fst p \<in> set (n # ns) then (fst p, update_attrs (snd p) node_default) else p) (nodes g)"
    using Cons.prems(3) by (auto simp: update_node_def)
  with s ih show ?case by simp
qed

lemma reset_nodes_ok:
  assumes "style_attrs g = Some style_attributes" "distinct (node_names g)"
  shows "reset_nodes g = Inr (g\<lparr>nodes := map (\<lambda>p. (fst p, update_attrs (snd p) node_default)) (nodes g)\<rparr>)"
proof -
  have "map (\<lambda>p. if fst p \<in> set (node_names g) then (fst p, update_attrs (snd p) node_default) else p) (nodes g)
     = map (\<lambda>p. (fst p, update_attrs (snd p) node_default)) (nodes g)"
    by (auto simp: node_names_def)
  then show ?thesis
    unfolding reset_nodes_def using reset_loop_ok[OF assms(1) subset_refl assms(2)] by simp
qed


lemma find_index_of_None: "find_index_of P xs = None \<longleftrightarrow> (\<forall>x \<in> set xs. \<not> P x)"
  by (induction xs) auto

lemma find_index_of_Some:
  "find_index_of P xs = Some i \<Longrightarrow> i < length xs \<and> P (xs ! i) \<and> (\<forall>j < i. \<not> P (xs ! j))"
proof (induction xs arbitrary: i)
  case Nil
  then show ?case by simp
next
  case (Cons x xs)
  show ?case
  proof (cases "P x")
    case True
    with Cons.prems show ?thesis by simp
  next
    case False
    with Cons.prems obtain k where k: "find_index_of P xs = Some k" "i = Suc k" by auto
    from Cons.IH[OF k(1)] False k(2) show ?thesis
      by (auto simp: less_Suc_eq_0_disj)
  qed
qed

lemma find_index_of_cong_map:
  "(\<And>x. x \<in> set xs \<Longrightarrow> P (f x) = P x) \<Longrightarrow> find_index_of P (map f xs) = find_index_of P xs"
  by (induction xs) auto

lemma reset_edges_upt:
  assumes "style_attrs g = Some style_attributes" "k \<le> length (edges g)"
  shows "reset_edges [k ..< length (edges g)] g =
     Inr (g\<lparr>edges := take k (edges g) @ map (edge_update edge_default) (drop k (edges g))\<rparr>)"
  using assms
proof (induction "length (edges g) - k" arbitrary: g k)
  case 0
  then show ?case by simp
next
  case (Suc d)
  then have lt: "k < length (edges g)" by simp
  let ?g1 = "g\<lparr>edges := (edges g)[k := edge_update edge_default (edges g ! k)]\<rparr>"
  have s: "set_edge_style g k ''default'' = Inr ?g1"
    using Suc.prems by (simp add: set_edge_style_def style_get_edge_default)
  have len: "length (edges ?g1) = length (edges g)" by simp
  have ih: "reset_edges [Suc k ..< length (edges ?g1)] ?g1 =
     Inr (?g1\<lparr>edges := take (Suc k) (edges ?g1) @ map (edge_update edge_default) (drop (Suc k) (edges ?g1))\<rparr>)"
    using Suc.hyps(2) Suc.prems lt by (intro Suc.hyps(1)) auto
  have e: "take (Suc k) (edges ?g1) @ map (edge_update edge_default) (drop (Suc k) (edges ?g1))
      = take k (edges g) @ map (edge_update edge_default) (drop k (edges g))"
    using lt by (simp add: take_Suc_conv_app_nth Cons_nth_drop_Suc[symmetric])
  have u: "[k ..< length (edges g)] = k # [Suc k ..< length (edges g)]"
    using lt by (simp add: upt_conv_Cons)
  show ?case using s ih e u by simp
qed

lemma reset_edges_all:
  assumes "style_attrs g = Some style_attributes"
  shows "reset_edges [0 ..< length (edges g)] g =
     Inr (g\<lparr>edges := map (edge_update edge_default) (edges g)\<rparr>)"
  using reset_edges_upt[OF assms, of 0] by simp

lemma edges_ensure_node [simp]: "edges (ensure_node g n) = edges g"
  by (simp add: ensure_node_def)

lemma add_edge_fresh:
  assumes "\<not> has_edge g u v"
  shows "add_edge g u v k a = (ensure_node (ensure_node g u) v)\<lparr>edges := edges g @ [Edge u v k a]\<rparr>"
proof -
  have "find_index_of (same_edge u v k) (edges g) = None"
    using assms by (auto simp: find_index_of_None has_edge_def same_edge_def)
  then show ?thesis by (simp add: add_edge_def Let_def)
qed

lemma set_edge_state_Inr:
  assumes ok: "style_attrs g = Some style_attributes"
    and r: "set_edge_state m g u v ''previous'' lbl = Inr g'"
  obtains i where
    "find_index_of (is_edge u v) (edges (lazy_edge m g u v lbl)) = Some i"
    "g' = (lazy_edge m g u v lbl)\<lparr>edges :=
            (map (edge_update edge_default) (edges (lazy_edge m g u v lbl)))
              [i := edge_update edge_previous
                      (edge_update edge_default (edges (lazy_edge m g u v lbl) ! i))]\<rparr>"
proof -
  let ?g1 = "lazy_edge m g u v lbl"
  have g1: "(if \<not> show_auto_transitions m \<and> \<not> has_edge g u v
             then add_edge g u v lbl Map.empty else g) = ?g1"
    by (simp add: lazy_edge_def add_edge_fresh)
  have ok1: "style_attrs ?g1 = Some style_attributes"
    using ok by (simp add: lazy_edge_def ensure_node_def)
  from r obtain i where i: "find_index_of (is_edge u v) (edges ?g1) = Some i"
    unfolding set_edge_state_def g1 Let_def get_edge_def
    by (auto split: option.splits sum.splits)
  have il: "i < length (edges ?g1)" using find_index_of_Some[OF i] by simp
  from r have "set_edge_style (?g1\<lparr>edges := map (edge_update edge_default) (edges ?g1)\<rparr>) i ''previous'' = Inr g'"
    unfolding set_edge_state_def g1 Let_def get_edge_def
    using i reset_edges_all[OF ok1] by simp
  then have "g' = ?g1\<lparr>edges := (map (edge_update edge_default) (edges ?g1))
              [i := edge_update edge_previous (edge_update edge_default (edges ?g1 ! i))]\<rparr>"
    using ok1 il by (simp add: set_edge_style_def style_get_edge_previous)
  with i show ?thesis using that by blast
qed


subsection \<open>Reading the role of a node off its attributes\<close>

lemma role_active:
  assumes "node_own g n = a ++ node_active"
  shows "has_role g n ''active''"
  using assms
  by (simp add: has_role_def style_get_node_active node_attrs_def update_attrs_def)
     (simp add: node_active_def map_add_def)

lemma role_default:
  assumes "node_attr g = node_default" "node_own g n = a ++ node_default \<or> node_own g n = Map.empty"
  shows "has_role g n ''default'' \<and> \<not> has_role g n ''active'' \<and> \<not> has_role g n ''previous''"
  using assms
  by (auto simp: has_role_def style_get_node_active style_get_node_default style_get_node_previous
        node_attrs_def update_attrs_def node_active_def node_default_def node_previous_def map_add_def)

lemma role_previous:
  assumes "node_own g n = a ++ node_default ++ node_previous"
  shows "has_role g n ''previous'' \<and> \<not> has_role g n ''active'' \<and> \<not> has_role g n ''default''"
  using assms
  by (auto simp: has_role_def style_get_node_active style_get_node_default style_get_node_previous
        node_attrs_def update_attrs_def node_active_def node_default_def node_previous_def map_add_def)

lemma filter_single:
  "distinct xs \<Longrightarrow> x \<in> set xs \<Longrightarrow> P x \<Longrightarrow> (\<forall>y \<in> set xs. y \<noteq> x \<longrightarrow> \<not> P y) \<Longrightarrow> filter P xs = [x]"
proof (induction xs)
  case Nil
  then show ?case by simp
next
  case (Cons a xs)
  show ?case
  proof (cases "a = x")
    case True
    with Cons.prems have "\<forall>y \<in> set xs. \<not> P y" by auto
    then have "filter P xs = []" by (simp add: filter_empty_conv)
    with True Cons.prems show ?thesis by simp
  next
    case False
    with Cons show ?thesis by auto
  qed
qed

lemma has_node_map_of: "has_node g n = (map_of (nodes g) n \<noteq> None)"
  by (simp add: has_node_def map_of_eq_None_iff)

lemma node_own_reset:
  "node_own (g\<lparr>nodes := map (\<lambda>p. (fst p, update_attrs (snd p) d)) (nodes g)\<rparr>) n
     = (if has_node g n then update_attrs (node_own g n) d else Map.empty)"
proof -
  have "map_of (map (\<lambda>p. (fst p, update_attrs (snd p) d)) ns) n = map_option (\<lambda>a. update_attrs a d) (map_of ns n)" for ns
    by (induction ns) auto
  then show ?thesis
    by (auto simp: node_own_def has_node_map_of split: option.splits)
qed

lemma node_own_update_node:
  "node_own (g\<lparr>nodes := update_node x d (nodes g)\<rparr>) n
     = (if n = x \<and> has_node g x then update_attrs (node_own g n) d else node_own g n)"
  by (cases "n = x")
     (auto simp: node_own_def has_node_map_of map_of_update_node_same map_of_update_node_other
        split: option.splits)

lemma node_own_ensure_node [simp]: "node_own (ensure_node g x) n = node_own g n"
  by (auto simp: node_own_def ensure_node_def has_node_map_of map_add_def split: option.splits)

lemma node_own_edges_upd [simp]: "node_own (g\<lparr>edges := es\<rparr>) n = node_own g n"
  by (simp add: node_own_def)

lemma node_own_subgraphs_upd [simp]: "node_own (g\<lparr>subgraphs := cs\<rparr>) n = node_own g n"
  by (simp add: node_own_def)

lemma has_node_simps [simp]:
  "has_node (g\<lparr>edges := es\<rparr>) n = has_node g n"
  "has_node (g\<lparr>subgraphs := cs\<rparr>) n = has_node g n"
  "has_node (g\<lparr>nodes := update_node x d (nodes g)\<rparr>) n = has_node g n"
  "has_node (g\<lparr>nodes := map (\<lambda>p. (fst p, f (snd p))) (nodes g)\<rparr>) n = has_node g n"
  by (auto simp: has_node_def map_fst_update_node comp_def)

lemma has_node_ensure_node [simp]: "has_node (ensure_node g x) n = (n = x \<or> has_node g n)"
  by (auto simp: ensure_node_def has_node_def)

lemma node_names_simps [simp]:
  "node_names (g\<lparr>edges := es\<rparr>) = node_names g"
  "node_names (g\<lparr>subgraphs := cs\<rparr>) = node_names g"
  "node_names (g\<lparr>nodes := update_node x d (nodes g)\<rparr>) = node_names g"
  "node_names (g\<lparr>nodes := map (\<lambda>p. (fst p, f (snd p))) (nodes g)\<rparr>) = node_names g"
  by (auto simp: node_names_def map_fst_update_node comp_def)

lemma node_names_ensure_node:
  "node_names (ensure_node g x) = node_names g @ (if has_node g x then [] else [x])"
  by (auto simp: ensure_node_def node_names_def)

lemma has_node_names: "has_node g n = (n \<in> set (node_names g))"
  by (simp add: has_node_def node_names_def)

subsection \<open>The steps of the transition hook\<close>

text \<open>
  A completed \<^verbatim>\<open>_change_state\<close> is the composition of the node reset, the marking of the
  source, the edge lookup with its reset and marking, and the marking of the destination;
  \<open>change_state_source\<close> and \<open>change_state_initial\<close> give the graph that results.
\<close>

lemma set_node_state_node:
  assumes "has_node g n" "style_attrs g = Some style_attributes"
    "style_get style_attributes ''node'' st = Some d"
  shows "set_node_state g n st = Inr (g\<lparr>nodes := update_node n d (nodes g)\<rparr>)"
  using assms by (simp add: set_node_state_def set_node_style_def)

lemma set_node_state_cluster:
  assumes "\<not> has_node g n" "style_attrs g = Some style_attributes"
    "style_get style_attributes ''node'' st = Some d" "set_node_state g n st = Inr g'"
  shows "find_cluster (cluster_path n) (subgraphs g) \<noteq> None
     \<and> g' = g\<lparr>subgraphs := update_cluster (cluster_path n) (restyle d) (subgraphs g)\<rparr>"
  using assms
  by (auto simp: set_node_state_def elim!: set_graph_style_Inr)

lemma reset_graph_simps [simp]:
  "has_node (reset_graph g) n = has_node g n"
  "node_names (reset_graph g) = node_names g"
  "edges (reset_graph g) = edges g"
  "subgraphs (reset_graph g) = subgraphs g"
  "style_attrs (reset_graph g) = style_attrs g"
  "node_attr (reset_graph g) = node_attr g"
  by (auto simp: reset_graph_def has_node_def node_names_def comp_def)

lemma node_own_reset_graph:
  "node_own (reset_graph g) n = (if has_node g n then update_attrs (node_own g n) node_default else Map.empty)"
  unfolding reset_graph_def by (rule node_own_reset)

lemma mark_previous_simps [simp]:
  "has_node (mark_previous g x) n = has_node g n"
  "node_names (mark_previous g x) = node_names g"
  "edges (mark_previous g x) = edges g"
  "style_attrs (mark_previous g x) = style_attrs g"
  "node_attr (mark_previous g x) = node_attr g"
  by (auto simp: mark_previous_def)

lemma node_own_mark_previous:
  "node_own (mark_previous g x) n =
     (if n = x \<and> has_node g x then update_attrs (node_own g n) node_previous else node_own g n)"
  by (auto simp: mark_previous_def node_own_update_node)

lemma graph_ok_style: "graph_ok g \<Longrightarrow> style_attrs g = Some style_attributes"
  by (simp add: graph_ok_def)

lemma lazy_edge_fields [simp]:
  "style_attrs (lazy_edge m g u v l) = style_attrs g"
  "node_attr (lazy_edge m g u v l) = node_attr g"
  "subgraphs (lazy_edge m g u v l) = subgraphs g"
  by (auto simp: lazy_edge_def ensure_node_def)

lemma node_own_lazy_edge [simp]: "node_own (lazy_edge m g u v l) n = node_own g n"
  by (simp add: lazy_edge_def)

lemma has_node_lazy_edge:
  "has_node (lazy_edge m g u v l) n =
     (has_node g n \<or> (\<not> show_auto_transitions m \<and> \<not> has_edge g u v \<and> (n = u \<or> n = v)))"
  by (auto simp: lazy_edge_def)

lemma node_names_lazy_edge:
  "distinct (node_names g) \<Longrightarrow> distinct (node_names (lazy_edge m g u v l))
     \<and> set (node_names g) \<subseteq> set (node_names (lazy_edge m g u v l))"
  by (auto simp: lazy_edge_def node_names_ensure_node has_node_names)

lemma edges_closed_lazy_edge:
  assumes "\<forall>e \<in> set (edges g). has_node g (e_src e) \<and> has_node g (e_dst e)"
  shows "\<forall>e \<in> set (edges (lazy_edge m g u v l)).
           has_node (lazy_edge m g u v l) (e_src e) \<and> has_node (lazy_edge m g u v l) (e_dst e)"
  using assms by (auto simp: lazy_edge_def)

lemma change_state_source:
  assumes ok: "graph_ok g" and s: "source t = Some s" and r: "change_state m t ev g = Inr g'"
  obtains src dst u v i where
    "get_state m s = Inr src" "get_state m (dest t) = Inr dst"
    "resolved m s (dest t) = Inr (u, v)"
    "\<not> has_node g (name src) \<longrightarrow> find_cluster (cluster_path (name src)) (subgraphs g) \<noteq> None"
    "find_index_of (is_edge u v)
       (edges (lazy_edge m (mark_previous (reset_graph g) (name src)) u v (Some ev))) = Some i"
    "has_node (lazy_edge m (mark_previous (reset_graph g) (name src)) u v (Some ev)) v"
    "g' = (lazy_edge m (mark_previous (reset_graph g) (name src)) u v (Some ev))
           \<lparr>edges := (map (edge_update edge_default)
                        (edges (lazy_edge m (mark_previous (reset_graph g) (name src)) u v (Some ev))))
                      [i := edge_update edge_previous (edge_update edge_default
                         (edges (lazy_edge m (mark_previous (reset_graph g) (name src)) u v (Some ev)) ! i))],
             nodes := update_node v node_active
                        (nodes (lazy_edge m (mark_previous (reset_graph g) (name src)) u v (Some ev)))\<rparr>"
proof -
  have st: "style_attrs g = Some style_attributes" and dn: "distinct (node_names g)"
    and cl: "\<forall>e \<in> set (edges g). has_node g (e_src e) \<and> has_node g (e_dst e)"
    using ok by (auto simp: graph_ok_def)
  have rs: "reset_nodes g = Inr (reset_graph g)"
    unfolding reset_graph_def by (rule reset_nodes_ok[OF st dn])
  from r s rs obtain dst src where
      dst: "get_state m (dest t) = Inr dst" and src: "get_state m s = Inr src"
    unfolding change_state_def by (auto split: sum.splits)
  from r s rs dst src obtain g2 where
      g2: "set_node_state (reset_graph g) (name src) ''previous'' = Inr g2"
    unfolding change_state_def by (auto split: sum.splits)
  from r s rs dst src g2 obtain u v where
      uv: "resolved m s (dest t) = Inr (u, v)"
    and rest: "(case set_edge_state m g2 u v ''previous'' (Some ev) of
                 Inl e \<Rightarrow> Inl e | Inr graph3 \<Rightarrow> set_node_state graph3 v ''active'') = Inr g'"
    unfolding change_state_def resolved_def
    by (auto split: sum.splits if_splits)
  from rest obtain g3 where
      g3: "set_edge_state m g2 u v ''previous'' (Some ev) = Inr g3"
    and g4: "set_node_state g3 v ''active'' = Inr g'"
    by (auto split: sum.splits)
  have st1: "style_attrs (reset_graph g) = Some style_attributes"
    using st by simp
  have hn1: "has_node (reset_graph g) n = has_node g n" for n
    by simp
  have g2eq: "g2 = mark_previous (reset_graph g) (name src)"
   and fc: "\<not> has_node g (name src) \<longrightarrow> find_cluster (cluster_path (name src)) (subgraphs g) \<noteq> None"
  proof -
    show "g2 = mark_previous (reset_graph g) (name src)"
    proof (cases "has_node g (name src)")
      case True
      then show ?thesis
        using g2 set_node_state_node[OF _ st1 style_get_node_previous, of "name src"]
        by (simp add: mark_previous_def hn1)
    next
      case False
      then show ?thesis
        using set_node_state_cluster[OF _ st1 style_get_node_previous g2]
        by (simp add: mark_previous_def hn1)
    qed
    show "\<not> has_node g (name src) \<longrightarrow> find_cluster (cluster_path (name src)) (subgraphs g) \<noteq> None"
      using set_node_state_cluster[OF _ st1 style_get_node_previous g2]
      by auto
  qed
  let ?ge = "lazy_edge m (mark_previous (reset_graph g) (name src)) u v (Some ev)"
  have st2: "style_attrs g2 = Some style_attributes"
    using st1 by (simp add: g2eq)
  from set_edge_state_Inr[OF st2 g3] obtain i where
      i: "find_index_of (is_edge u v) (edges (lazy_edge m g2 u v (Some ev))) = Some i"
    and g3eq: "g3 = (lazy_edge m g2 u v (Some ev))\<lparr>edges :=
            (map (edge_update edge_default) (edges (lazy_edge m g2 u v (Some ev))))
              [i := edge_update edge_previous
                      (edge_update edge_default (edges (lazy_edge m g2 u v (Some ev)) ! i))]\<rparr>"
    by blast
  have cl2: "\<forall>e \<in> set (edges g2). has_node g2 (e_src e) \<and> has_node g2 (e_dst e)"
    using cl by (simp add: g2eq)
  have cle: "\<forall>e \<in> set (edges ?ge). has_node ?ge (e_src e) \<and> has_node ?ge (e_dst e)"
    using edges_closed_lazy_edge[OF cl2] by (simp add: g2eq)
  have ie: "i < length (edges ?ge) \<and> is_edge u v (edges ?ge ! i)"
    using find_index_of_Some[OF i] by (simp add: g2eq)
  then have hv: "has_node ?ge v"
    using cle by (auto simp: is_edge_def dest!: nth_mem)
  have st3: "style_attrs g3 = Some style_attributes"
    using st2 by (simp add: g3eq)
  have hv3: "has_node g3 v" using hv by (simp add: g3eq g2eq)
  have "g' = g3\<lparr>nodes := update_node v node_active (nodes g3)\<rparr>"
    using g4 set_node_state_node[OF hv3 st3 style_get_node_active] by simp
  then have "g' = ?ge\<lparr>edges := (map (edge_update edge_default) (edges ?ge))
                      [i := edge_update edge_previous (edge_update edge_default (edges ?ge ! i))],
             nodes := update_node v node_active (nodes ?ge)\<rparr>"
    by (simp add: g3eq g2eq)
  with src dst uv fc i hv show ?thesis
    using that by (simp add: g2eq)
qed

lemma is_edge_edge_update [simp]: "is_edge u v (edge_update d e) = is_edge u v e"
  by (simp add: is_edge_def edge_update_def)

lemma edge_update_sel [simp]:
  "e_src (edge_update d e) = e_src e" "e_dst (edge_update d e) = e_dst e"
  "e_key (edge_update d e) = e_key e" "e_attr (edge_update d e) = update_attrs (e_attr e) d"
  by (simp_all add: edge_update_def)

lemma change_state_source_nodes:
  assumes ok: "graph_ok g" and s: "source t = Some s" and r: "change_state m t ev g = Inr g'"
  obtains src dst u v where
    "get_state m s = Inr src" "get_state m (dest t) = Inr dst"
    "resolved m s (dest t) = Inr (u, v)"
    "graph_ok g'" "has_node g' u" "has_node g' v"
    "set (node_names g) \<subseteq> set (node_names g')"
    "\<And>n. node_own g' n =
        (if n = v then update_attrs (node_own (mark_previous (reset_graph g) (name src)) v) node_active
         else node_own (mark_previous (reset_graph g) (name src)) n)"
    "subgraphs g' = subgraphs (mark_previous (reset_graph g) (name src))"
    "\<not> has_node g (name src) \<longrightarrow> find_cluster (cluster_path (name src)) (subgraphs g) \<noteq> None"
proof -
  from change_state_source[OF ok s r] obtain src dst u v i where
    src: "get_state m s = Inr src" and dst: "get_state m (dest t) = Inr dst"
    and uv: "resolved m s (dest t) = Inr (u, v)"
    and fc: "\<not> has_node g (name src) \<longrightarrow> find_cluster (cluster_path (name src)) (subgraphs g) \<noteq> None"
    and i: "find_index_of (is_edge u v)
       (edges (lazy_edge m (mark_previous (reset_graph g) (name src)) u v (Some ev))) = Some i"
    and hv: "has_node (lazy_edge m (mark_previous (reset_graph g) (name src)) u v (Some ev)) v"
    and g': "g' = (lazy_edge m (mark_previous (reset_graph g) (name src)) u v (Some ev))
           \<lparr>edges := (map (edge_update edge_default)
                        (edges (lazy_edge m (mark_previous (reset_graph g) (name src)) u v (Some ev))))
                      [i := edge_update edge_previous (edge_update edge_default
                         (edges (lazy_edge m (mark_previous (reset_graph g) (name src)) u v (Some ev)) ! i))],
             nodes := update_node v node_active
                        (nodes (lazy_edge m (mark_previous (reset_graph g) (name src)) u v (Some ev)))\<rparr>"
    by blast
  let ?g2 = "mark_previous (reset_graph g) (name src)"
  let ?ge = "lazy_edge m ?g2 u v (Some ev)"
  have st: "style_attrs g = Some style_attributes" and na: "node_attr g = node_default"
    and dn: "distinct (node_names g)"
    and cl: "\<forall>e \<in> set (edges g). has_node g (e_src e) \<and> has_node g (e_dst e)"
    using ok by (auto simp: graph_ok_def)
  have names: "node_names g' = node_names ?ge"
    by (simp add: g' node_names_def map_fst_update_node)
  have hn: "has_node g' n = has_node ?ge n" for n
    by (simp add: has_node_names names)
  have dn2: "distinct (node_names ?g2)" using dn by simp
  have dne: "distinct (node_names ?ge)" and sub: "set (node_names ?g2) \<subseteq> set (node_names ?ge)"
    using node_names_lazy_edge[OF dn2] by auto
  have cl2: "\<forall>e \<in> set (edges ?g2). has_node ?g2 (e_src e) \<and> has_node ?g2 (e_dst e)"
    using cl by simp
  have cle: "\<forall>e \<in> set (edges ?ge). has_node ?ge (e_src e) \<and> has_node ?ge (e_dst e)"
    by (rule edges_closed_lazy_edge[OF cl2])
  have ie: "i < length (edges ?ge)" "is_edge u v (edges ?ge ! i)"
    using find_index_of_Some[OF i] by auto
  have hu: "has_node ?ge u"
    using cle ie by (auto simp: is_edge_def dest!: nth_mem)
  have eg': "edges g' = (map (edge_update edge_default) (edges ?ge))
                      [i := edge_update edge_previous (edge_update edge_default (edges ?ge ! i))]"
    by (simp add: g')
  have cl': "\<forall>e \<in> set (edges g'). has_node g' (e_src e) \<and> has_node g' (e_dst e)"
  proof
    fix e assume "e \<in> set (edges g')"
    then have "e \<in> insert (edge_update edge_previous (edge_update edge_default (edges ?ge ! i)))
                 (set (map (edge_update edge_default) (edges ?ge)))"
      unfolding eg' using set_update_subset_insert by fastforce
    then obtain e0 where "e0 \<in> set (edges ?ge)" "e_src e = e_src e0" "e_dst e = e_dst e0"
      using ie(1) by (auto dest: nth_mem)
    then show "has_node g' (e_src e) \<and> has_node g' (e_dst e)"
      using cle by (simp add: hn)
  qed
  have ok': "graph_ok g'"
    unfolding graph_ok_def using cl' dne st na by (simp add: names) (simp add: g')
  have own: "node_own g' n =
        (if n = v then update_attrs (node_own ?g2 v) node_active else node_own ?g2 n)" for n
  proof -
    have "node_own g' n = node_own (?ge\<lparr>nodes := update_node v node_active (nodes ?ge)\<rparr>) n"
      by (simp add: g' node_own_def)
    then show ?thesis using hv by (simp add: node_own_update_node)
  qed
  have sg: "subgraphs g' = subgraphs ?g2" by (simp add: g')
  have sub': "set (node_names g) \<subseteq> set (node_names g')"
    using sub by (simp add: names)
  show ?thesis
    using that[OF src dst uv ok' _ _ sub' own sg fc] hu hv by (simp add: hn)
qed


lemma change_state_initial:
  assumes ok: "graph_ok g" and s: "source t = None" and r: "change_state m t ev g = Inr g'"
  obtains dst where "get_state m (dest t) = Inr dst"
    "has_node g (name dst) \<longrightarrow>
       g' = (reset_graph g)\<lparr>nodes := update_node (name dst) node_active (nodes (reset_graph g))\<rparr>"
    "\<not> has_node g (name dst) \<longrightarrow>
       find_cluster (cluster_path (name dst)) (subgraphs g) \<noteq> None
       \<and> g' = (reset_graph g)\<lparr>subgraphs :=
                 update_cluster (cluster_path (name dst)) (restyle node_active) (subgraphs g)\<rparr>"
proof -
  have st: "style_attrs g = Some style_attributes" and dn: "distinct (node_names g)"
    using ok by (auto simp: graph_ok_def)
  have rs: "reset_nodes g = Inr (reset_graph g)"
    unfolding reset_graph_def by (rule reset_nodes_ok[OF st dn])
  from r s rs obtain dst where dst: "get_state m (dest t) = Inr dst"
    and a: "set_node_state (reset_graph g) (name dst) ''active'' = Inr g'"
    unfolding change_state_def by (auto split: sum.splits)
  have st1: "style_attrs (reset_graph g) = Some style_attributes" using st by simp
  have n: "has_node g (name dst) \<longrightarrow>
       g' = (reset_graph g)\<lparr>nodes := update_node (name dst) node_active (nodes (reset_graph g))\<rparr>"
    using a set_node_state_node[OF _ st1 style_get_node_active, of "name dst"] by simp
  have c: "\<not> has_node g (name dst) \<longrightarrow>
       find_cluster (cluster_path (name dst)) (subgraphs g) \<noteq> None
       \<and> g' = (reset_graph g)\<lparr>subgraphs :=
                 update_cluster (cluster_path (name dst)) (restyle node_active) (subgraphs g)\<rparr>"
    using set_node_state_cluster[OF _ st1 style_get_node_active a] by simp
  show ?thesis using that[OF dst n c] .
qed

lemma node_own_marked:
  "node_own (mark_previous (reset_graph g) x) n =
     (if n = x \<and> has_node g x
      then update_attrs (update_attrs (node_own g n) node_default) node_previous
      else if has_node g n then update_attrs (node_own g n) node_default else Map.empty)"
  by (simp add: node_own_mark_previous node_own_reset_graph)

lemma roles_marked:
  assumes "node_attr h = node_default" "node_own h n = node_own (mark_previous (reset_graph g) x) n"
  shows "(has_role h n ''default'' \<or> has_role h n ''previous'') \<and> \<not> has_role h n ''active''"
proof -
  consider "node_own h n = node_own g n ++ node_default ++ node_previous"
    | "node_own h n = node_own g n ++ node_default" | "node_own h n = Map.empty"
    using assms(2) by (auto simp: node_own_marked update_attrs_def split: if_splits)
  then show ?thesis
  proof cases
    case 1
    then show ?thesis using role_previous by blast
  next
    case 2
    then show ?thesis using role_default[OF assms(1)] by blast
  next
    case 3
    then show ?thesis using role_default[OF assms(1)] by blast
  qed
qed

lemma roles_reset:
  assumes "node_attr h = node_default" "node_own h n = node_own (reset_graph g) n"
  shows "has_role h n ''default'' \<and> \<not> has_role h n ''previous'' \<and> \<not> has_role h n ''active''"
proof -
  have "node_own h n = node_own g n ++ node_default \<or> node_own h n = Map.empty"
    using assms(2) by (auto simp: node_own_reset_graph update_attrs_def split: if_splits)
  then show ?thesis using role_default[OF assms(1)] by blast
qed

lemma find_upd_first:
  assumes "\<And>x. P x \<Longrightarrow> P (h x)"
  shows "find P (upd_first P h xs) = map_option h (find P xs)"
  using assms by (induction xs) auto

lemma find_cluster_update:
  "(\<forall>c. c_name (f c) = c_name c) \<Longrightarrow>
     find_cluster p (update_cluster p f cs) = map_option f (find_cluster p cs)"
proof (induction p f cs rule: update_cluster.induct)
  case (1 f cs)
  then show ?case by simp
next
  case (2 p f cs)
  have "find (\<lambda>c. c_name c = p) (upd_first (\<lambda>c. c_name c = p) f cs)
        = map_option f (find (\<lambda>c. c_name c = p) cs)"
    by (rule find_upd_first) (simp add: 2)
  then show ?case by (simp add: get_subgraph_def)
next
  case (3 p q ps f cs)
  have "find (\<lambda>c. c_name c = p)
          (upd_first (\<lambda>c. c_name c = p)
             (\<lambda>c. Cluster (c_name c) (c_attr c) (c_nodes c) (update_cluster (q # ps) f (c_subs c))) cs)
        = map_option (\<lambda>c. Cluster (c_name c) (c_attr c) (c_nodes c) (update_cluster (q # ps) f (c_subs c)))
            (find (\<lambda>c. c_name c = p) cs)"
    by (rule find_upd_first) simp
  then show ?case using 3
    by (auto simp: get_subgraph_def split: option.splits)
qed

lemma run_append:
  "run m (xs @ ys) g = (case run m xs g of Inl e \<Rightarrow> Inl e | Inr g1 \<Rightarrow> run m ys g1)"
  by (induction xs arbitrary: g) (auto split: sum.splits)

lemma change_state_graph_ok:
  assumes "graph_ok g" "change_state m t ev g = Inr g'"
  shows "graph_ok g'"
proof (cases "source t")
  case None
  from change_state_initial[OF assms(1) None assms(2)] obtain dst where
    n: "has_node g (name dst) \<longrightarrow>
       g' = (reset_graph g)\<lparr>nodes := update_node (name dst) node_active (nodes (reset_graph g))\<rparr>"
    and c: "\<not> has_node g (name dst) \<longrightarrow>
       find_cluster (cluster_path (name dst)) (subgraphs g) \<noteq> None
       \<and> g' = (reset_graph g)\<lparr>subgraphs :=
                 update_cluster (cluster_path (name dst)) (restyle node_active) (subgraphs g)\<rparr>"
    by blast
  have "graph_ok (reset_graph g)" using assms(1) by (simp add: graph_ok_def)
  then show ?thesis using n c
    by (cases "has_node g (name dst)") (auto simp: graph_ok_def)
next
  case (Some s)
  from change_state_source_nodes[OF assms(1) Some assms(2)] show ?thesis by blast
qed

lemma run_graph_ok:
  "graph_ok g \<Longrightarrow> run m ts g = Inr g' \<Longrightarrow> graph_ok g'"
proof (induction ts arbitrary: g)
  case Nil
  then show ?case by simp
next
  case (Cons a ts)
  then show ?case
    by (auto split: sum.splits dest: change_state_graph_ok)
qed

lemma restyle_name [simp]: "c_name (restyle d c) = c_name c"
  by (simp add: restyle_def)

lemma cluster_role_restyle_active: "cluster_has_role (restyle node_active c) ''active''"
  by (simp add: cluster_has_role_def style_get_node_active restyle_def update_attrs_def)
     (simp add: node_active_def)

lemma cluster_role_restyle_previous: "cluster_has_role (restyle node_previous c) ''previous''"
  by (simp add: cluster_has_role_def style_get_node_previous restyle_def update_attrs_def)
     (simp add: node_previous_def)

lemma active_source_step:
  assumes ok: "graph_ok g" and r: "change_state m t ev g = Inr g'" and Some: "source t = Some s"
  shows "\<exists>dst. get_state m (dest t) = Inr dst \<and>
           (\<exists>d. active_nodes g' = [d]
                   \<and> (\<forall>n \<in> set (node_names g'). n \<noteq> d \<longrightarrow>
                          has_role g' n ''default'' \<or> has_role g' n ''previous''))"
proof (rule change_state_source_nodes[OF ok Some r])
  fix src dst u v
  assume dst: "get_state m (dest t) = Inr dst" and ok': "graph_ok g'" and hv: "has_node g' v"
    and own: "\<And>n. node_own g' n =
        (if n = v then update_attrs (node_own (mark_previous (reset_graph g) (name src)) v) node_active
         else node_own (mark_previous (reset_graph g) (name src)) n)"
  have na: "node_attr g' = node_default" and dn: "distinct (node_names g')"
    using ok' by (auto simp: graph_ok_def)
  have ownv: "node_own g' v = node_own (mark_previous (reset_graph g) (name src)) v ++ node_active"
    using own[of v] by (simp add: update_attrs_def)
  have av: "has_role g' v ''active''"
    by (rule role_active[OF ownv])
  have oth: "(has_role g' n ''default'' \<or> has_role g' n ''previous'') \<and> \<not> has_role g' n ''active''"
    if "n \<noteq> v" for n
  proof -
    have "node_own g' n = node_own (mark_previous (reset_graph g) (name src)) n"
      using own[of n] that by simp
    then show ?thesis by (rule roles_marked[OF na])
  qed
  have vn: "v \<in> set (node_names g')" using hv by (simp add: has_node_names)
  have nact: "\<forall>y\<in>set (node_names g'). y \<noteq> v \<longrightarrow> \<not> has_role g' y ''active''"
    using oth by blast
  have "filter (\<lambda>n. has_role g' n ''active'') (node_names g') = [v]"
    by (rule filter_single[OF dn vn av nact])
  then have one: "active_nodes g' = [v]" by (simp add: active_nodes_def)
  have rest: "\<forall>n \<in> set (node_names g'). n \<noteq> v \<longrightarrow>
                          has_role g' n ''default'' \<or> has_role g' n ''previous''"
    using oth by blast
  show ?thesis
    by (intro exI[of _ dst] conjI exI[of _ v]) (rule dst, rule one, rule rest)
qed


lemma active_initial_step:
  assumes ok: "graph_ok g" and r: "change_state m t ev g = Inr g'" and None: "source t = None"
  shows "\<exists>dst. get_state m (dest t) = Inr dst \<and>
          node_names g' = node_names g \<and> edges g' = edges g \<and>
          (\<forall>n. n \<noteq> name dst \<longrightarrow> has_role g' n ''default'') \<and>
          (\<forall>n. \<not> has_role g' n ''previous'') \<and>
          (if has_node g' (name dst)
           then active_nodes g' = [name dst] \<and> has_role g' (name dst) ''active''
           else active_nodes g' = []
                \<and> (\<exists>c. find_cluster (cluster_path (name dst)) (subgraphs g') = Some c
                         \<and> cluster_has_role c ''active''))"
proof (rule change_state_initial[OF ok None r])
  fix dst
  assume dst: "get_state m (dest t) = Inr dst"
    and n: "has_node g (name dst) \<longrightarrow>
       g' = (reset_graph g)\<lparr>nodes := update_node (name dst) node_active (nodes (reset_graph g))\<rparr>"
    and c: "\<not> has_node g (name dst) \<longrightarrow>
       find_cluster (cluster_path (name dst)) (subgraphs g) \<noteq> None
       \<and> g' = (reset_graph g)\<lparr>subgraphs :=
                 update_cluster (cluster_path (name dst)) (restyle node_active) (subgraphs g)\<rparr>"
  have ok': "graph_ok g'" by (rule change_state_graph_ok[OF ok r])
  have na: "node_attr g' = node_default" and dn: "distinct (node_names g')"
    using ok' by (auto simp: graph_ok_def)
  show ?thesis
  proof (cases "has_node g (name dst)")
    case True
    with n have g': "g' = (reset_graph g)\<lparr>nodes := update_node (name dst) node_active (nodes (reset_graph g))\<rparr>"
      by simp
    have hn: "has_node g' (name dst)" using True by (simp add: g')
    have nn: "node_names g' = node_names g" by (simp add: g')
    have ee: "edges g' = edges g" by (simp add: g')
    have ownd: "node_own g' (name dst) = node_own (reset_graph g) (name dst) ++ node_active"
      using True by (simp add: g' node_own_update_node update_attrs_def)
    have owno: "node_own g' x = node_own (reset_graph g) x" if "x \<noteq> name dst" for x
      using that by (simp add: g' node_own_update_node)
    have av: "has_role g' (name dst) ''active''"
      by (rule role_active[OF ownd])
    have oth: "has_role g' x ''default'' \<and> \<not> has_role g' x ''previous'' \<and> \<not> has_role g' x ''active''"
      if "x \<noteq> name dst" for x
      by (rule roles_reset[OF na owno[OF that]])
    have vn: "name dst \<in> set (node_names g')" using hn by (simp add: has_node_names)
    have nact: "\<forall>y\<in>set (node_names g'). y \<noteq> name dst \<longrightarrow> \<not> has_role g' y ''active''"
      using oth by blast
    have "filter (\<lambda>n. has_role g' n ''active'') (node_names g') = [name dst]"
      by (rule filter_single[OF dn vn av nact])
    then have one: "active_nodes g' = [name dst]" by (simp add: active_nodes_def)
    have np: "\<not> has_role g' (name dst) ''previous''"
      using ownd by (simp add: has_role_def style_get_node_previous node_attrs_def update_attrs_def)
                     (simp add: node_active_def node_previous_def map_add_def)
    have d: "\<forall>x. x \<noteq> name dst \<longrightarrow> has_role g' x ''default''" using oth by blast
    have p1: "\<not> has_role g' x ''previous''" for x
    proof (cases "x = name dst")
      case True
      then show ?thesis using np by simp
    next
      case False
      then show ?thesis using oth by blast
    qed
    have p: "\<forall>x. \<not> has_role g' x ''previous''" using p1 by blast
    have i: "if has_node g' (name dst)
           then active_nodes g' = [name dst] \<and> has_role g' (name dst) ''active''
           else active_nodes g' = []
                \<and> (\<exists>c. find_cluster (cluster_path (name dst)) (subgraphs g') = Some c
                         \<and> cluster_has_role c ''active'')"
      using hn one av by simp
    show ?thesis
      by (intro exI[of _ dst] conjI) (rule dst, rule nn, rule ee, rule d, rule p, rule i)
  next
    case False
    from c False have fcn: "find_cluster (cluster_path (name dst)) (subgraphs g) \<noteq> None"
      and g': "g' = (reset_graph g)\<lparr>subgraphs :=
                 update_cluster (cluster_path (name dst)) (restyle node_active) (subgraphs g)\<rparr>"
      by blast+
    from fcn obtain c0 where c0: "find_cluster (cluster_path (name dst)) (subgraphs g) = Some c0"
      by blast
    have hn: "\<not> has_node g' (name dst)" using False by (simp add: g')
    have nn: "node_names g' = node_names g" by (simp add: g')
    have ee: "edges g' = edges g" by (simp add: g')
    have owno: "node_own g' x = node_own (reset_graph g) x" for x
      by (simp add: g')
    have all: "has_role g' x ''default'' \<and> \<not> has_role g' x ''previous'' \<and> \<not> has_role g' x ''active''" for x
      by (rule roles_reset[OF na owno])
    have e: "active_nodes g' = []"
      unfolding active_nodes_def using all by (simp add: filter_empty_conv)
    have fc: "find_cluster (cluster_path (name dst)) (subgraphs g') = Some (restyle node_active c0)"
      using c0 by (simp add: g' find_cluster_update)
    have cr: "\<exists>c. find_cluster (cluster_path (name dst)) (subgraphs g') = Some c
                         \<and> cluster_has_role c ''active''"
      using fc cluster_role_restyle_active by blast
    have d: "\<forall>x. x \<noteq> name dst \<longrightarrow> has_role g' x ''default''" using all by blast
    have p: "\<forall>x. \<not> has_role g' x ''previous''" using all by blast
    have i: "if has_node g' (name dst)
           then active_nodes g' = [name dst] \<and> has_role g' (name dst) ''active''
           else active_nodes g' = []
                \<and> (\<exists>c. find_cluster (cluster_path (name dst)) (subgraphs g') = Some c
                         \<and> cluster_has_role c ''active'')"
      using hn e cr by simp
    show ?thesis
      by (intro exI[of _ dst] conjI) (rule dst, rule nn, rule ee, rule d, rule p, rule i)
  qed
qed

lemma active_not_previous:
  assumes "node_own g n = a ++ node_active"
  shows "\<not> has_role g n ''previous''"
  using assms
  by (simp add: has_role_def style_get_node_previous node_attrs_def update_attrs_def)
     (simp add: node_active_def node_previous_def map_add_def)

lemma find_index_of_map_cong:
  "map P xs = map P ys \<Longrightarrow> find_index_of P xs = find_index_of P ys"
proof (induction xs arbitrary: ys)
  case Nil
  then show ?case by simp
next
  case (Cons x xs)
  then obtain y ys' where ys: "ys = y # ys'" by (cases ys) auto
  with Cons.prems have "P x = P y" "map P xs = map P ys'" by auto
  with Cons.IH[of ys'] ys show ?case by simp
qed

lemma edge_role_previous:
  "edge_has_role (edge_update edge_previous e) ''previous''"
  by (simp add: edge_has_role_def style_get_edge_previous update_attrs_def)
     (simp add: edge_previous_def)

lemma edge_role_default:
  "edge_has_role (edge_update edge_default e) ''default''"
  by (simp add: edge_has_role_def style_get_edge_default update_attrs_def)
     (simp add: edge_default_def)

lemma edge_attr_frame:
  "k \<noteq> ''color'' \<Longrightarrow> update_attrs a edge_default k = a k \<and> update_attrs a edge_previous k = a k"
  by (simp add: update_attrs_def edge_default_def edge_previous_def map_add_def)

lemma has_edge_find: "has_edge g u v = (find_index_of (is_edge u v) (edges g) \<noteq> None)"
  by (simp add: has_edge_def find_index_of_None)

lemma edges_lazy_edge:
  "edges (lazy_edge m g u v l) =
     edges g @ (if \<not> show_auto_transitions m \<and> \<not> has_edge g u v then [Edge u v l Map.empty] else [])"
  by (simp add: lazy_edge_def)

lemma has_edge_marked [simp]: "has_edge (mark_previous (reset_graph g) x) u v = has_edge g u v"
  by (simp add: has_edge_def)

lemma find_index_of_append_fresh:
  assumes "find_index_of P xs = None" "find_index_of P (xs @ ys) = Some i"
  shows "length xs \<le> i"
proof (rule ccontr)
  assume "\<not> length xs \<le> i"
  then have lt: "i < length xs" by simp
  from find_index_of_Some[OF assms(2)] have "P ((xs @ ys) ! i)" by simp
  with lt have "P (xs ! i)" by (simp add: nth_append)
  moreover have "xs ! i \<in> set xs" using lt by simp
  ultimately show False using assms(1) by (simp add: find_index_of_None)
qed

lemma change_state_source_edges:
  assumes ok: "graph_ok g" and s: "source t = Some s" and r: "change_state m t ev g = Inr g'"
  obtains u v i E where
    "resolved m s (dest t) = Inr (u, v)"
    "E = edges g @ (if \<not> show_auto_transitions m \<and> \<not> has_edge g u v
                    then [Edge u v (Some ev) Map.empty] else [])"
    "find_index_of (is_edge u v) E = Some i"
    "edges g' = (map (edge_update edge_default) E)
                  [i := edge_update edge_previous (edge_update edge_default (E ! i))]"
proof (rule change_state_source[OF ok s r])
  fix src dst u v i
  assume uv: "resolved m s (dest t) = Inr (u, v)"
    and i: "find_index_of (is_edge u v)
       (edges (lazy_edge m (mark_previous (reset_graph g) (name src)) u v (Some ev))) = Some i"
    and g': "g' = (lazy_edge m (mark_previous (reset_graph g) (name src)) u v (Some ev))
           \<lparr>edges := (map (edge_update edge_default)
                        (edges (lazy_edge m (mark_previous (reset_graph g) (name src)) u v (Some ev))))
                      [i := edge_update edge_previous (edge_update edge_default
                         (edges (lazy_edge m (mark_previous (reset_graph g) (name src)) u v (Some ev)) ! i))],
             nodes := update_node v node_active
                        (nodes (lazy_edge m (mark_previous (reset_graph g) (name src)) u v (Some ev)))\<rparr>"
  let ?E = "edges g @ (if \<not> show_auto_transitions m \<and> \<not> has_edge g u v
                    then [Edge u v (Some ev) Map.empty] else [])"
  have E: "edges (lazy_edge m (mark_previous (reset_graph g) (name src)) u v (Some ev)) = ?E"
    by (simp add: edges_lazy_edge)
  have i': "find_index_of (is_edge u v) ?E = Some i" using i unfolding E .
  have e': "edges g' = (map (edge_update edge_default) ?E)
                  [i := edge_update edge_previous (edge_update edge_default (?E ! i))]"
    unfolding E[symmetric] by (simp add: g')
  show thesis by (rule that[OF uv refl i' e'])
qed

subsection \<open>The concrete graphs are the ones the builder returns\<close>

lemma graph_attr_eval:
  "update_attrs [''label'' \<mapsto> l, ''compound'' \<mapsto> ''True'']
          (machine_attributes |` (- {''directed'', ''strict''}))
   = [''label'' \<mapsto> l, ''compound'' \<mapsto> ''True'', ''rankdir'' \<mapsto> ''LR'', ''ratio'' \<mapsto> ''0.3'']"
  by (rule ext) (simp add: update_attrs_def machine_attributes_def map_add_def restrict_map_def)

lemma built_abc: "get_graph True m_abc (TitleStr ''M'') = Inr g_abc"
  unfolding get_graph_def new_graph_def graph_attr_eval
  by (simp add: m_abc_def g_abc_def eval_defs)

lemma built_nest: "get_graph True m_nest (TitleStr ''M'') = Inr g_nest"
  unfolding get_graph_def new_graph_def graph_attr_eval
  by (simp add: m_nest_def g_nest_def eval_defs)

lemma graph_ok_abc: "graph_ok g_abc"
  by (simp add: graph_ok_def g_abc_def has_node_def node_names_def)

lemma graph_ok_nest: "graph_ok g_nest"
  by (simp add: graph_ok_def g_nest_def has_node_def node_names_def)

lemma built_two: "get_graph True m_two (TitleStr ''M'') = Inr g_two"
  unfolding get_graph_def new_graph_def graph_attr_eval
  by (simp add: m_two_def g_two_def eval_defs)

lemma built_loop: "get_graph True m_loop (TitleStr ''M'') = Inr g_loop"
  unfolding get_graph_def new_graph_def graph_attr_eval
  by (simp add: m_loop_def g_loop_def eval_defs)

lemma graph_ok_two: "graph_ok g_two"
  by (simp add: graph_ok_def g_two_def has_node_def node_names_def)

subsection \<open>Style application only touches the keys of the role\<close>

text \<open>
  C8. Applying a role to a node or to an edge merges the role's dictionary into the
  attributes of the target: a key the dictionary does not mention keeps its value (on the
  node itself and as it reads through the defaults), a key it mentions takes the role's
  value, no key is removed, and no other node or edge changes. Since this holds for every
  application, it holds for the later one of any two successive applications.
\<close>

theorem style_application_frame:
  assumes "style_attrs g = Some table"
  shows "(set_node_style g n st = Inr g' \<longrightarrow>
            (\<exists>d. style_get table ''node'' st = Some d
               \<and> node_own g' n = update_attrs (node_own g n) d
               \<and> (\<forall>k. d k = None \<longrightarrow> node_own g' n k = node_own g n k \<and> node_get g' n k = node_get g n k)
               \<and> (\<forall>k v. d k = Some v \<longrightarrow> node_own g' n k = Some v)
               \<and> dom (node_own g n) \<subseteq> dom (node_own g' n)
               \<and> (\<forall>n'. n' \<noteq> n \<longrightarrow> node_own g' n' = node_own g n')
               \<and> edges g' = edges g))
       \<and> (i < length (edges g) \<and> set_edge_style g i st = Inr g'' \<longrightarrow>
            (\<exists>d. style_get table ''edge'' st = Some d
               \<and> e_attr (edges g'' ! i) = update_attrs (e_attr (edges g ! i)) d
               \<and> (\<forall>k. d k = None \<longrightarrow> e_attr (edges g'' ! i) k = e_attr (edges g ! i) k)
               \<and> (\<forall>k v. d k = Some v \<longrightarrow> e_attr (edges g'' ! i) k = Some v)
               \<and> dom (e_attr (edges g ! i)) \<subseteq> dom (e_attr (edges g'' ! i))
               \<and> (\<forall>j. j \<noteq> i \<longrightarrow> edges g'' ! j = edges g ! j)
               \<and> nodes g'' = nodes g))"
proof (intro conjI impI)
  assume r: "set_node_style g n st = Inr g'"
  from r obtain d where d: "style_get table ''node'' st = Some d" "has_node g n"
      "g' = g\<lparr>nodes := update_node n d (nodes g)\<rparr>"
    using assms by (auto elim!: set_node_style_Inr)
  have own: "node_own g' n = update_attrs (node_own g n) d"
    using d by (simp add: node_own_update_node)
  have oth: "\<forall>n'. n' \<noteq> n \<longrightarrow> node_own g' n' = node_own g n'"
    using d by (simp add: node_own_update_node)
  have na: "node_attr g' = node_attr g" using d by simp
  have frame: "\<forall>k. d k = None \<longrightarrow> node_own g' n k = node_own g n k \<and> node_get g' n k = node_get g n k"
    using own na by (simp add: node_get_def node_attrs_def update_attrs_def map_add_def)
  have keys: "\<forall>k v. d k = Some v \<longrightarrow> node_own g' n k = Some v"
    using own by (simp add: update_attrs_def)
  have dm: "dom (node_own g n) \<subseteq> dom (node_own g' n)"
    using own by (simp add: update_attrs_def)
  show "\<exists>d. style_get table ''node'' st = Some d
               \<and> node_own g' n = update_attrs (node_own g n) d
               \<and> (\<forall>k. d k = None \<longrightarrow> node_own g' n k = node_own g n k \<and> node_get g' n k = node_get g n k)
               \<and> (\<forall>k v. d k = Some v \<longrightarrow> node_own g' n k = Some v)
               \<and> dom (node_own g n) \<subseteq> dom (node_own g' n)
               \<and> (\<forall>n'. n' \<noteq> n \<longrightarrow> node_own g' n' = node_own g n')
               \<and> edges g' = edges g"
    using d(1,3) own oth frame keys dm by auto
next
  assume r: "i < length (edges g) \<and> set_edge_style g i st = Inr g''"
  from r obtain d where d: "style_get table ''edge'' st = Some d"
      "g'' = g\<lparr>edges := (edges g)[i := edge_update d (edges g ! i)]\<rparr>"
    using assms by (auto elim!: set_edge_style_Inr)
  have own: "e_attr (edges g'' ! i) = update_attrs (e_attr (edges g ! i)) d"
    using d r by (simp add: edge_update_def)
  have oth: "\<forall>j. j \<noteq> i \<longrightarrow> edges g'' ! j = edges g ! j"
    using d by simp
  have frame: "\<forall>k. d k = None \<longrightarrow> e_attr (edges g'' ! i) k = e_attr (edges g ! i) k"
    using own by (simp add: update_attrs_def map_add_def)
  have keys: "\<forall>k v. d k = Some v \<longrightarrow> e_attr (edges g'' ! i) k = Some v"
    using own by (simp add: update_attrs_def)
  have dm: "dom (e_attr (edges g ! i)) \<subseteq> dom (e_attr (edges g'' ! i))"
    using own by (simp add: update_attrs_def)
  show "\<exists>d. style_get table ''edge'' st = Some d
               \<and> e_attr (edges g'' ! i) = update_attrs (e_attr (edges g ! i)) d
               \<and> (\<forall>k. d k = None \<longrightarrow> e_attr (edges g'' ! i) k = e_attr (edges g ! i) k)
               \<and> (\<forall>k v. d k = Some v \<longrightarrow> e_attr (edges g'' ! i) k = Some v)
               \<and> dom (e_attr (edges g ! i)) \<subseteq> dom (e_attr (edges g'' ! i))
               \<and> (\<forall>j. j \<noteq> i \<longrightarrow> edges g'' ! j = edges g ! j)
               \<and> nodes g'' = nodes g"
    using d own oth frame keys dm by auto
qed

theorem style_application_frame_witness:
  "style_attrs g_frame = Some style_attributes
   \<and> (\<exists>g'. set_node_style g_frame ''A'' ''previous'' = Inr g'
         \<and> node_own g' ''A'' ''shape'' = Some ''box''
         \<and> node_own g' ''A'' ''color'' = Some ''blue'')
   \<and> (\<exists>g''. set_edge_style g_frame 0 ''previous'' = Inr g''
         \<and> e_attr (edges g'' ! 0) ''label'' = Some ''go''
         \<and> e_attr (edges g'' ! 0) ''color'' = Some ''blue'')"
proof -
  have t: "style_attrs g_frame = Some style_attributes" by (simp add: g_frame_def)
  obtain g' where g': "set_node_style g_frame ''A'' ''previous'' = Inr g'"
    by (simp add: g_frame_def set_node_style_def has_node_def style_get_node_previous)
  obtain g'' where g'': "set_edge_style g_frame 0 ''previous'' = Inr g''"
    by (simp add: g_frame_def set_edge_style_def style_get_edge_previous)
  have l: "0 < length (edges g_frame)" by (simp add: g_frame_def)
  have o: "node_own g_frame ''A'' = [''shape'' \<mapsto> ''box'', ''color'' \<mapsto> ''black'']"
    by (simp add: g_frame_def node_own_def)
  have e: "e_attr (edges g_frame ! 0) = [''label'' \<mapsto> ''go'', ''color'' \<mapsto> ''black'']"
    by (simp add: g_frame_def)
  from style_application_frame[OF t, of "''A''" "''previous''" g' 0 g''] g' g'' l
  have n: "node_own g' ''A'' = update_attrs (node_own g_frame ''A'') node_previous"
    and ed: "e_attr (edges g'' ! 0) = update_attrs (e_attr (edges g_frame ! 0)) edge_previous"
    by (auto simp: style_get_node_previous style_get_edge_previous)
  have "node_own g' ''A'' ''shape'' = Some ''box'' \<and> node_own g' ''A'' ''color'' = Some ''blue''"
    unfolding n o by (simp add: update_attrs_def node_previous_def map_add_def)
  moreover have "e_attr (edges g'' ! 0) ''label'' = Some ''go'' \<and> e_attr (edges g'' ! 0) ''color'' = Some ''blue''"
    unfolding ed e by (simp add: update_attrs_def edge_previous_def map_add_def)
  ultimately show ?thesis using t g' g'' by blast
qed

subsection \<open>One active node after every transition\<close>

text \<open>
  C1, as amended. Start from a graph as the builder returns it (\<open>graph_ok\<close>) and let any
  sequence of diagram updates complete. After the last update, if its transition has a
  source, or if its destination is a node of the graph, exactly one node carries the active
  role and every other node carries the default or the previous role. If the transition
  has no source and its destination is not a node (a composite state), the active style is
  on the cluster of the destination and no node carries the active role.
\<close>

theorem active_role_unique:
  assumes "graph_ok g" and "run m (ts @ [(t, ev)]) g = Inr g'"
  shows "\<exists>dst. get_state m (dest t) = Inr dst \<and>
          (if source t = None \<and> \<not> has_node g' (name dst)
           then active_nodes g' = []
                \<and> (\<exists>c. find_cluster (cluster_path (name dst)) (subgraphs g') = Some c
                         \<and> cluster_has_role c ''active'')
           else (\<exists>d. active_nodes g' = [d]
                   \<and> (\<forall>n \<in> set (node_names g'). n \<noteq> d \<longrightarrow>
                          has_role g' n ''default'' \<or> has_role g' n ''previous'')))"
proof -
  from assms(2) obtain g1 where g1: "run m ts g = Inr g1" and st: "change_state m t ev g1 = Inr g'"
    by (auto simp: run_append split: sum.splits)
  have ok1: "graph_ok g1" by (rule run_graph_ok[OF assms(1) g1])
  show ?thesis
  proof (cases "source t")
    case (Some s)
    from active_source_step[OF ok1 st Some] show ?thesis using Some by auto
  next
    case None
    from active_initial_step[OF ok1 st None] obtain dst where
      dst: "get_state m (dest t) = Inr dst"
      and d: "\<forall>n. n \<noteq> name dst \<longrightarrow> has_role g' n ''default''"
      and i: "if has_node g' (name dst)
           then active_nodes g' = [name dst] \<and> has_role g' (name dst) ''active''
           else active_nodes g' = []
                \<and> (\<exists>c. find_cluster (cluster_path (name dst)) (subgraphs g') = Some c
                         \<and> cluster_has_role c ''active'')"
      by blast
    show ?thesis
    proof (cases "has_node g' (name dst)")
      case True
      with i have "active_nodes g' = [name dst]" by simp
      with d have "\<exists>d. active_nodes g' = [d]
                   \<and> (\<forall>n \<in> set (node_names g'). n \<noteq> d \<longrightarrow>
                          has_role g' n ''default'' \<or> has_role g' n ''previous'')"
        by blast
      with dst True show ?thesis by auto
    next
      case False
      with i dst None show ?thesis by auto
    qed
  qed
qed

theorem active_role_unique_witness:
  "graph_ok g_abc \<and>
   (\<exists>g'. run m_abc ([(Transition (Some ''A'') ''B'' [], ''go'')] @ [(Transition (Some ''B'') ''C'' [], ''go'')]) g_abc
            = Inr g'
          \<and> (\<exists>d. active_nodes g' = [d]
                 \<and> (\<forall>n \<in> set (node_names g'). n \<noteq> d \<longrightarrow>
                        has_role g' n ''default'' \<or> has_role g' n ''previous'')))"
proof -
  obtain g' where r: "run m_abc ([(Transition (Some ''A'') ''B'' [], ''go'')] @ [(Transition (Some ''B'') ''C'' [], ''go'')]) g_abc = Inr g'"
    by (simp add: m_abc_def g_abc_def eval_defs)
  from active_role_unique[OF graph_ok_abc r]
  have "\<exists>d. active_nodes g' = [d]
                 \<and> (\<forall>n \<in> set (node_names g'). n \<noteq> d \<longrightarrow>
                        has_role g' n ''default'' \<or> has_role g' n ''previous'')"
    by simp
  with r graph_ok_abc show ?thesis by blast
qed

text \<open>
  The sentence of the specification fails for the initial entry into the composite state P: the update
  completes and no node is active.
\<close>

theorem active_role_unique_counterexample:
  "graph_ok g_nest \<and>
   (\<exists>g'. run m_nest [(Transition None ''P'' [], ''init'')] g_nest = Inr g' \<and> active_nodes g' = [])"
proof -
  have "\<exists>g'. run m_nest [(Transition None ''P'' [], ''init'')] g_nest = Inr g' \<and> active_nodes g' = []"
    by (simp add: m_nest_def g_nest_def eval_defs)
  with graph_ok_nest show ?thesis by blast
qed

subsection \<open>The initial entry, a transition without a source\<close>

text \<open>
  C10. For a transition whose source is undefined, a completed update keeps the nodes and
  leaves the edge list as it was (no edge is reset, none is marked): every node other than
  the destination carries the default role, no node carries the previous role, and the
  active role is on the destination, which is the only active node when it is a node and a
  cluster otherwise.
\<close>

theorem initial_entry_update:
  assumes "graph_ok g" and "source t = None" and "change_state m t ev g = Inr g'"
  shows "\<exists>dst. get_state m (dest t) = Inr dst \<and>
          node_names g' = node_names g \<and> edges g' = edges g \<and>
          (\<forall>n. n \<noteq> name dst \<longrightarrow> has_role g' n ''default'') \<and>
          (\<forall>n. \<not> has_role g' n ''previous'') \<and>
          (if has_node g' (name dst)
           then active_nodes g' = [name dst] \<and> has_role g' (name dst) ''active''
           else active_nodes g' = []
                \<and> (\<exists>c. find_cluster (cluster_path (name dst)) (subgraphs g') = Some c
                         \<and> cluster_has_role c ''active''))"
  using assms(1) assms(3) assms(2) by (rule active_initial_step)

theorem initial_entry_update_witness:
  "graph_ok g_nest \<and> source (Transition None ''X'' []) = None \<and>
   (\<exists>g'. change_state m_nest (Transition None ''X'' []) ''init'' g_nest = Inr g'
          \<and> edges g' = edges g_nest \<and> active_nodes g' = [''X'']
          \<and> has_role g' ''P_1'' ''default'')"
proof -
  obtain g' where r: "change_state m_nest (Transition None ''X'' []) ''init'' g_nest = Inr g'"
    by (simp add: m_nest_def g_nest_def eval_defs)
  have s: "source (Transition None ''X'' []) = None" by simp
  have d: "get_state m_nest ''X'' = Inr (NestedState ''X'' ''X'' [])"
    by (simp add: get_state_def m_nest_def)
  from initial_entry_update[OF graph_ok_nest s r] d
  have nn: "node_names g' = node_names g_nest" and ee: "edges g' = edges g_nest"
    and df: "\<forall>n. n \<noteq> ''X'' \<longrightarrow> has_role g' n ''default''"
    and i: "if has_node g' ''X'' then active_nodes g' = [''X''] \<and> has_role g' ''X'' ''active''
            else active_nodes g' = []
                \<and> (\<exists>c. find_cluster (cluster_path ''X'') (subgraphs g') = Some c
                         \<and> cluster_has_role c ''active'')"
    by auto
  have "has_node g' ''X''"
    using nn by (simp add: has_node_names g_nest_def node_names_def)
  with i have a: "active_nodes g' = [''X'']" by simp
  have "has_role g' ''P_1'' ''default''" using df by simp
  with r s ee a graph_ok_nest show ?thesis by blast
qed

subsection \<open>The previous role of the source\<close>

text \<open>
  C3, as amended. A completed update of a transition with a source applies the previous
  role to the source under its own name, before any resolution: when the graph has a node
  of that name, that node carries the previous role afterwards (unless it is also the
  resolved destination, which ends active) and no cluster changes; when it has none (a
  composite source), the cluster reached along the split name carries the previous style
  and no node carries the previous role, so the leaf the source resolves to is left with
  the default role. The resolved names \<open>u\<close> and \<open>v\<close> serve the edge lookup only.
\<close>

theorem previous_on_source:
  assumes ok: "graph_ok g" and s: "source t = Some s" and r: "change_state m t ev g = Inr g'"
  shows "\<exists>src u v. get_state m s = Inr src \<and> resolved m s (dest t) = Inr (u, v) \<and>
           has_node g' u \<and> has_node g' v \<and>
           (if has_node g (name src)
            then (name src \<noteq> v \<longrightarrow> has_role g' (name src) ''previous'')
                 \<and> subgraphs g' = subgraphs g
            else (\<exists>c. find_cluster (cluster_path (name src)) (subgraphs g') = Some c
                      \<and> cluster_has_role c ''previous'')
                 \<and> (\<forall>n. \<not> has_role g' n ''previous'')
                 \<and> (u \<noteq> v \<longrightarrow> has_role g' u ''default''))"
proof (rule change_state_source_nodes[OF ok s r])
  fix src dst u v
  assume src: "get_state m s = Inr src" and uv: "resolved m s (dest t) = Inr (u, v)"
    and ok': "graph_ok g'" and hu: "has_node g' u" and hv: "has_node g' v"
    and own: "\<And>n. node_own g' n =
        (if n = v then update_attrs (node_own (mark_previous (reset_graph g) (name src)) v) node_active
         else node_own (mark_previous (reset_graph g) (name src)) n)"
    and sg: "subgraphs g' = subgraphs (mark_previous (reset_graph g) (name src))"
    and fc: "\<not> has_node g (name src) \<longrightarrow> find_cluster (cluster_path (name src)) (subgraphs g) \<noteq> None"
  have na: "node_attr g' = node_default" using ok' by (simp add: graph_ok_def)
  have c: "if has_node g (name src)
            then (name src \<noteq> v \<longrightarrow> has_role g' (name src) ''previous'')
                 \<and> subgraphs g' = subgraphs g
            else (\<exists>c. find_cluster (cluster_path (name src)) (subgraphs g') = Some c
                      \<and> cluster_has_role c ''previous'')
                 \<and> (\<forall>n. \<not> has_role g' n ''previous'')
                 \<and> (u \<noteq> v \<longrightarrow> has_role g' u ''default'')"
  proof (cases "has_node g (name src)")
    case True
    have p: "has_role g' (name src) ''previous''" if ne: "name src \<noteq> v"
    proof -
      have "node_own g' (name src) = node_own g (name src) ++ node_default ++ node_previous"
        using own[of "name src"] ne True by (simp add: node_own_marked update_attrs_def)
      then show ?thesis using role_previous by blast
    qed
    have "subgraphs g' = subgraphs g" using True by (simp add: sg mark_previous_def)
    with p True show ?thesis by simp
  next
    case False
    have sg': "subgraphs g' = update_cluster (cluster_path (name src)) (restyle node_previous) (subgraphs g)"
      using False by (simp add: sg mark_previous_def)
    from fc False obtain c0 where c0: "find_cluster (cluster_path (name src)) (subgraphs g) = Some c0"
      by blast
    have "find_cluster (cluster_path (name src)) (subgraphs g') = Some (restyle node_previous c0)"
      using c0 by (simp add: sg' find_cluster_update)
    then have cl: "\<exists>c. find_cluster (cluster_path (name src)) (subgraphs g') = Some c
                      \<and> cluster_has_role c ''previous''"
      using cluster_role_restyle_previous by blast
    have o: "node_own g' n = node_own (reset_graph g) n" if "n \<noteq> v" for n
      using own[of n] that False by (simp add: node_own_mark_previous)
    have np: "\<not> has_role g' n ''previous''" for n
    proof (cases "n = v")
      case True
      have "node_own g' v = node_own (mark_previous (reset_graph g) (name src)) v ++ node_active"
        using own[of v] by (simp add: update_attrs_def)
      then show ?thesis using True active_not_previous by blast
    next
      case ne: False
      show ?thesis using roles_reset[OF na o[OF ne]] by blast
    qed
    have ud: "has_role g' u ''default''" if "u \<noteq> v"
      using roles_reset[OF na o[OF that]] by blast
    have all: "\<forall>n. \<not> has_role g' n ''previous''" using np by blast
    show ?thesis using False cl all ud by simp
  qed
  show ?thesis
    by (intro exI[of _ src] exI[of _ u] exI[of _ v] conjI) (rule src, rule uv, rule hu, rule hv, rule c)
qed

theorem previous_on_source_witness:
  "graph_ok g_abc \<and> source (Transition (Some ''A'') ''B'' []) = Some ''A'' \<and>
   (\<exists>g'. change_state m_abc (Transition (Some ''A'') ''B'' []) ''go'' g_abc = Inr g'
          \<and> has_role g' ''A'' ''previous'')"
proof -
  obtain g' where r: "change_state m_abc (Transition (Some ''A'') ''B'' []) ''go'' g_abc = Inr g'"
    by (simp add: m_abc_def g_abc_def eval_defs)
  have s: "source (Transition (Some ''A'') ''B'' []) = Some ''A''" by simp
  have gs: "get_state m_abc ''A'' = Inr (State ''A'')" by (simp add: get_state_def m_abc_def)
  have rs: "resolved m_abc ''A'' ''B'' = Inr (''A'', ''B'')"
    by (simp add: resolved_def get_state_def m_abc_def)
  have hn: "has_node g_abc ''A''" by (simp add: has_node_def g_abc_def)
  from previous_on_source[OF graph_ok_abc s r] gs rs hn
  have "has_role g' ''A'' ''previous''" by auto
  with r s graph_ok_abc show ?thesis by blast
qed

text \<open>
  The sentence of the specification fails for the composite source P, which resolves to the leaf
  \<^verbatim>\<open>P_1\<close>: after the update that leaf carries the default role, not the previous one.
\<close>

theorem previous_on_source_counterexample:
  "graph_ok g_nest \<and> resolved m_nest ''P'' ''X'' = Inr (''P_1'', ''X'') \<and>
   (\<exists>g'. change_state m_nest (Transition (Some ''P'') ''X'' []) ''go'' g_nest = Inr g'
          \<and> \<not> has_role g' ''P_1'' ''previous'' \<and> has_role g' ''P_1'' ''default'')"
proof -
  have "\<exists>g'. change_state m_nest (Transition (Some ''P'') ''X'' []) ''go'' g_nest = Inr g'
          \<and> \<not> has_role g' ''P_1'' ''previous'' \<and> has_role g' ''P_1'' ''default''"
    by (simp add: m_nest_def g_nest_def eval_defs)
  moreover have "resolved m_nest ''P'' ''X'' = Inr (''P_1'', ''X'')"
    by (simp add: resolved_def get_state_def m_nest_def)
  ultimately show ?thesis using graph_ok_nest by blast
qed

subsection \<open>The previous role of the edge taken\<close>

text \<open>
  C2, as amended. A completed update of a transition with a source ends with the edge
  between the resolved source and the resolved destination carrying the previous role and
  every other edge carrying the default role. The edges the graph had keep their ends,
  keys and every attribute but the colour, so their labels stay as they were. When the
  graph had no such edge, the display of auto transitions is disabled and exactly one edge
  was added, the one that is marked.
\<close>

theorem previous_on_edge:
  assumes ok: "graph_ok g" and s: "source t = Some s" and r: "change_state m t ev g = Inr g'"
  shows "\<exists>u v i. resolved m s (dest t) = Inr (u, v) \<and> get_edge g' u v = Inr i
          \<and> i < length (edges g')
          \<and> edge_has_role (edges g' ! i) ''previous''
          \<and> (\<forall>j < length (edges g'). j \<noteq> i \<longrightarrow> edge_has_role (edges g' ! j) ''default'')
          \<and> (\<forall>j < length (edges g).
                e_src (edges g' ! j) = e_src (edges g ! j) \<and> e_dst (edges g' ! j) = e_dst (edges g ! j)
                \<and> e_key (edges g' ! j) = e_key (edges g ! j)
                \<and> (\<forall>k. k \<noteq> ''color'' \<longrightarrow> e_attr (edges g' ! j) k = e_attr (edges g ! j) k))
          \<and> (if has_edge g u v then length (edges g') = length (edges g)
              else \<not> show_auto_transitions m \<and> length (edges g') = Suc (length (edges g))
                   \<and> i = length (edges g))"
proof (rule change_state_source_edges[OF ok s r])
  fix u v i E
  assume uv: "resolved m s (dest t) = Inr (u, v)"
    and E: "E = edges g @ (if \<not> show_auto_transitions m \<and> \<not> has_edge g u v
                    then [Edge u v (Some ev) Map.empty] else [])"
    and i: "find_index_of (is_edge u v) E = Some i"
    and e': "edges g' = (map (edge_update edge_default) E)
                  [i := edge_update edge_previous (edge_update edge_default (E ! i))]"
  have il: "i < length E" using find_index_of_Some[OF i] by simp
  have len: "length (edges g') = length E" by (simp add: e')
  have nth: "edges g' ! j = (if j = i then edge_update edge_previous (edge_update edge_default (E ! j))
                             else edge_update edge_default (E ! j))" if "j < length E" for j
    using that by (simp add: e' nth_list_update)
  have "map (is_edge u v) (edges g') = map (is_edge u v) E"
    by (rule nth_equalityI) (simp_all add: len nth)
  then have "find_index_of (is_edge u v) (edges g') = Some i"
    using i find_index_of_map_cong by metis
  then have ge: "get_edge g' u v = Inr i" by (simp add: get_edge_def)
  have il': "i < length (edges g')" using il len by simp
  have rp: "edge_has_role (edges g' ! i) ''previous''"
    using nth[OF il] by (simp add: edge_role_previous)
  have rd: "\<forall>j < length (edges g'). j \<noteq> i \<longrightarrow> edge_has_role (edges g' ! j) ''default''"
    using nth by (simp add: len edge_role_default)
  have old: "\<forall>j < length (edges g).
                e_src (edges g' ! j) = e_src (edges g ! j) \<and> e_dst (edges g' ! j) = e_dst (edges g ! j)
                \<and> e_key (edges g' ! j) = e_key (edges g ! j)
                \<and> (\<forall>k. k \<noteq> ''color'' \<longrightarrow> e_attr (edges g' ! j) k = e_attr (edges g ! j) k)"
  proof (intro allI impI)
    fix j assume j: "j < length (edges g)"
    then have jl: "j < length E" by (simp add: E)
    have ej: "E ! j = edges g ! j" using j by (simp add: E nth_append)
    show "e_src (edges g' ! j) = e_src (edges g ! j) \<and> e_dst (edges g' ! j) = e_dst (edges g ! j)
                \<and> e_key (edges g' ! j) = e_key (edges g ! j)
                \<and> (\<forall>k. k \<noteq> ''color'' \<longrightarrow> e_attr (edges g' ! j) k = e_attr (edges g ! j) k)"
      using nth[OF jl] ej by (cases "j = i") (simp_all add: edge_attr_frame)
  qed
  have cs: "if has_edge g u v then length (edges g') = length (edges g)
              else \<not> show_auto_transitions m \<and> length (edges g') = Suc (length (edges g))
                   \<and> i = length (edges g)"
  proof (cases "has_edge g u v")
    case True
    then show ?thesis by (simp add: len E)
  next
    case False
    then have none: "find_index_of (is_edge u v) (edges g) = None" by (simp add: has_edge_find)
    have sa: "\<not> show_auto_transitions m"
    proof
      assume "show_auto_transitions m"
      then have "E = edges g" by (simp add: E)
      with i none show False by simp
    qed
    have E2: "E = edges g @ [Edge u v (Some ev) Map.empty]" using sa False by (simp add: E)
    have "length (edges g) \<le> i" using find_index_of_append_fresh[OF none] i E2 by simp
    moreover have "i < Suc (length (edges g))" using il E2 by simp
    ultimately have "i = length (edges g)" by simp
    then show ?thesis using False sa by (simp add: len E2)
  qed
  show ?thesis
    by (intro exI[of _ u] exI[of _ v] exI[of _ i] conjI)
       (rule uv, rule ge, rule il', rule rp, rule rd, rule old, rule cs)
qed

theorem previous_on_edge_witness:
  "graph_ok g_abc \<and> source (Transition (Some ''A'') ''B'' []) = Some ''A'' \<and>
   (\<exists>g' i. change_state m_abc (Transition (Some ''A'') ''B'' []) ''go'' g_abc = Inr g'
          \<and> get_edge g' ''A'' ''B'' = Inr i \<and> edge_has_role (edges g' ! i) ''previous''
          \<and> length (edges g') = length (edges g_abc))"
proof -
  obtain g' where r: "change_state m_abc (Transition (Some ''A'') ''B'' []) ''go'' g_abc = Inr g'"
    by (simp add: m_abc_def g_abc_def eval_defs)
  have s: "source (Transition (Some ''A'') ''B'' []) = Some ''A''" by simp
  have rs: "resolved m_abc ''A'' ''B'' = Inr (''A'', ''B'')"
    by (simp add: resolved_def get_state_def m_abc_def)
  have he: "has_edge g_abc ''A'' ''B''" by (simp add: has_edge_def g_abc_def is_edge_def)
  from previous_on_edge[OF graph_ok_abc s r] rs he
  have "\<exists>i. get_edge g' ''A'' ''B'' = Inr i \<and> edge_has_role (edges g' ! i) ''previous''
          \<and> length (edges g') = length (edges g_abc)"
    by auto
  with r s graph_ok_abc show ?thesis by blast
qed

text \<open>
  The sentence of the specification fails in two ways. An edge that carries the labels of two events keeps
  its label when one of them fires; and with the display of auto transitions enabled an
  edge the builder left out is not created: the lookup raises \<open>KeyError\<close>.
\<close>

theorem previous_on_edge_counterexample:
  "graph_ok g_two
   \<and> (\<exists>g'. change_state m_two (Transition (Some ''A'') ''B'' []) ''go'' g_two = Inr g'
          \<and> map edge_label_of (edges g') = [''go | stop''])
   \<and> show_auto_transitions m_loop
   \<and> change_state m_loop (Transition (Some ''P'') ''P_1'' []) ''enter'' g_loop = Inl KeyError"
proof -
  have a: "\<exists>g'. change_state m_two (Transition (Some ''A'') ''B'' []) ''go'' g_two = Inr g'
          \<and> map edge_label_of (edges g') = [''go | stop'']"
    by (simp add: m_two_def g_two_def eval_defs)
  have b: "show_auto_transitions m_loop" by (simp add: m_loop_def)
  have c: "change_state m_loop (Transition (Some ''P'') ''P_1'' []) ''enter'' g_loop = Inl KeyError"
    by (simp add: m_loop_def g_loop_def eval_defs)
  from graph_ok_two a b c show ?thesis by blast
qed

subsection \<open>A model that already has the accessor\<close>

lemma init_models_append:
  "init_models pgv m (xs @ ys) =
     (case init_models pgv m xs of
        Inl e \<Rightarrow> Inl e
      | Inr xs' \<Rightarrow> (case init_models pgv m ys of Inl e \<Rightarrow> Inl e | Inr ys' \<Rightarrow> Inr (xs' @ ys')))"
  by (induction xs) (auto split: sum.splits prod.splits)

lemma init_models_conflict:
  assumes "has_get_graph mdl"
  shows "\<exists>e. init_models pgv m (pre @ mdl # post) = Inl e"
    and "init_models pgv m pre = Inr pre' \<Longrightarrow> init_models pgv m (pre @ mdl # post) = Inl AttributeError"
  using assms by (auto simp: init_models_append split: sum.splits)

text \<open>
  C9. If a model of the machine already has an attribute \<^verbatim>\<open>get_graph\<close>, construction
  fails: it returns an error and no machine. The error is the \<open>AttributeError\<close> of the
  check whenever the models before it were set up without an error, in particular when it is
  the first model; the accessor is never bound over the attribute.
\<close>

theorem init_conflicting_accessor:
  assumes "has_get_graph mdl" and "models m = pre @ mdl # post"
  shows "(\<exists>e. init pgv m = Inl e)
       \<and> (\<forall>pre'. init_models pgv m pre = Inr pre' \<longrightarrow> init pgv m = Inl AttributeError)
       \<and> (pre = [] \<longrightarrow> init pgv m = Inl AttributeError)"
proof -
  from init_models_conflict(1)[OF assms(1), of pgv m pre post]
  obtain e where e: "init_models pgv m (models m) = Inl e" using assms(2) by auto
  have a: "\<exists>e. init pgv m = Inl e" using e by (simp add: init_def)
  have b: "\<forall>pre'. init_models pgv m pre = Inr pre' \<longrightarrow> init pgv m = Inl AttributeError"
    using init_models_conflict(2)[OF assms(1), of pgv m pre _ post] assms(2)
    by (simp add: init_def)
  have c: "pre = [] \<longrightarrow> init pgv m = Inl AttributeError"
    using b by simp
  from a b c show ?thesis by blast
qed

theorem init_conflicting_accessor_witness:
  "has_get_graph \<lparr>model_state = ''A'', model_graph = None, has_get_graph = True\<rparr>
   \<and> models m_bound = [] @ \<lparr>model_state = ''A'', model_graph = None, has_get_graph = True\<rparr> # []
   \<and> init True m_bound = Inl AttributeError"
proof -
  have h: "has_get_graph \<lparr>model_state = ''A'', model_graph = None, has_get_graph = True\<rparr>" by simp
  have m: "models m_bound = [] @ \<lparr>model_state = ''A'', model_graph = None, has_get_graph = True\<rparr> # []"
    by (simp add: m_bound_def)
  from init_conflicting_accessor[OF h m, of True] have "init True m_bound = Inl AttributeError" by simp
  with h m show ?thesis by blast
qed

subsection \<open>Adding states or transitions rebuilds every graph\<close>

lemma get_graph_models_irrelevant [simp]: "get_graph pgv (m\<lparr>models := ms\<rparr>) t = get_graph pgv m t"
proof -
  have a: "add_edges_from (m\<lparr>models := ms\<rparr>) l k src lt ts g = add_edges_from m l k src lt ts g"
    for l k src lt ts g
    by (induction ts arbitrary: g) (auto simp: get_state_def transition_label_def split: sum.splits)
  have b: "add_edges_event (m\<lparr>models := ms\<rparr>) l items g = add_edges_event m l items g" for l items g
    by (induction items arbitrary: g) (auto simp: get_state_def a split: sum.splits)
  have c: "add_edges (m\<lparr>models := ms\<rparr>) evs g = add_edges m evs g" for evs g
    by (induction evs arbitrary: g) (auto simp: suppressed_def b split: sum.splits)
  show ?thesis by (simp add: get_graph_def c)
qed













subsection \<open>The region of interest\<close>

lemma add_edge_None:
  "add_edge g u v None a = (ensure_node (ensure_node g u) v)\<lparr>edges := edges g @ [Edge u v None a]\<rparr>"
proof -
  have "find_index_of (same_edge u v None) es = None" for es
    by (simp add: find_index_of_None same_edge_def)
  then show ?thesis by (simp add: add_edge_def Let_def)
qed

lemma ensure_node_present: "has_node g n \<Longrightarrow> ensure_node g n = g"
  by (simp add: ensure_node_def)

lemma node_names_add_node:
  "node_names (add_node f x a) = node_names f @ (if has_node f x then [] else [x])"
  by (auto simp: add_node_def node_names_def map_fst_update_node)

lemma has_node_add_node [simp]: "has_node (add_node f x a) n = (n = x \<or> has_node f n)"
  by (auto simp: has_node_names node_names_add_node)

lemma map_add_same: "(m :: 'a \<rightharpoonup> 'b) ++ m = m"
  by (rule ext) (simp add: map_add_def split: option.splits)

lemma edges_add_node [simp]: "edges (add_node f x a) = edges f"
  by (simp add: add_node_def)

lemma node_own_add_node:
  "node_own (add_node f x a) n =
     (if n = x then (if has_node f x then update_attrs (node_own f x) a else a) else node_own f n)"
proof (cases "has_node f x")
  case True
  then show ?thesis by (simp add: add_node_def node_own_update_node)
next
  case False
  then have "map_of (nodes f) x = None" by (simp add: has_node_map_of)
  then show ?thesis using False
    by (auto simp: add_node_def node_own_def map_add_def split: option.splits)
qed

text \<open>One round of the loop of the extractor, for an edge that is taken over.\<close>

lemma roi_step:
  assumes inv: "has_node f a" "\<forall>n. has_node f n \<longrightarrow> node_own f n = node_attrs g n"
    and inc: "e_src t = a \<or> e_dst t = a"
  defines "f' \<equiv> add_edge (add_node f (roi_new a t) (node_attrs g (roi_new a t)))
                   (e_src t) (e_dst t) None (e_attr t)"
  shows "has_node f' a" "\<forall>n. has_node f' n \<longrightarrow> node_own f' n = node_attrs g n"
    "edges f' = edges f @ [roi_edge t]"
    "set (node_names f') = insert (roi_new a t) (set (node_names f))"
proof -
  let ?f1 = "add_node f (roi_new a t) (node_attrs g (roi_new a t))"
  have hs: "has_node ?f1 (e_src t)" and hd: "has_node ?f1 (e_dst t)"
    using inv(1) inc by (auto simp: roi_new_def)
  have f': "f' = ?f1\<lparr>edges := edges f @ [Edge (e_src t) (e_dst t) None (e_attr t)]\<rparr>"
    unfolding f'_def add_edge_None using hs hd by (simp add: ensure_node_present)
  show "has_node f' a" using inv(1) by (simp add: f')
  show "\<forall>n. has_node f' n \<longrightarrow> node_own f' n = node_attrs g n"
    using inv(2) by (auto simp: f' node_own_add_node update_attrs_def map_add_same)
  show "edges f' = edges f @ [roi_edge t]" by (simp add: f' roi_edge_def)
  show "set (node_names f') = insert (roi_new a t) (set (node_names f))"
    by (auto simp: f' node_names_add_node has_node_names)
qed

lemma roi_loop_result:
  assumes "has_node f a" "\<forall>n. has_node f n \<longrightarrow> node_own f n = node_attrs g n"
    and "\<forall>t \<in> set ts. e_src t = a \<or> e_dst t = a"
  shows "has_node (roi_loop g a ts f) a
     \<and> (\<forall>n. has_node (roi_loop g a ts f) n \<longrightarrow> node_own (roi_loop g a ts f) n = node_attrs g n)
     \<and> edges (roi_loop g a ts f) = edges f @ map roi_edge (filter (roi_keep g a) ts)
     \<and> set (node_names (roi_loop g a ts f))
         = set (node_names f) \<union> roi_new a ` set (filter (roi_keep g a) ts)"
  using assms
proof (induction ts arbitrary: f)
  case Nil
  then show ?case by simp
next
  case (Cons t ts)
  have inc: "e_src t = a \<or> e_dst t = a" and rest: "\<forall>t \<in> set ts. e_src t = a \<or> e_dst t = a"
    using Cons.prems(3) by auto
  show ?case
  proof (cases "roi_keep g a t")
    case False
    then have "roi_loop g a (t # ts) f = roi_loop g a ts f"
      by (simp add: roi_keep_def marked_previous_def)
    then show ?thesis using Cons.IH[OF Cons.prems(1,2) rest] False by simp
  next
    case True
    let ?f' = "add_edge (add_node f (roi_new a t) (node_attrs g (roi_new a t)))
                   (e_src t) (e_dst t) None (e_attr t)"
    have step: "roi_loop g a (t # ts) f = roi_loop g a ts ?f'"
      using True by (auto simp: roi_keep_def marked_previous_def roi_new_def)
    note s = roi_step[OF Cons.prems(1,2) inc]
    from Cons.IH[OF s(1) s(2) rest] show ?thesis
      unfolding step using True s(3) s(4) by auto
  qed
qed


lemma set_incident: "set (incident g a) = {e \<in> set (edges g). e_src e = a \<or> e_dst e = a}"
  by (auto simp: incident_def)

lemma previous_is_marked: "has_role g n ''previous'' \<Longrightarrow> marked_previous g n"
  by (simp add: has_role_def style_get_node_previous marked_previous_def node_get_def
        previous_fillcolor_def)
     (simp add: node_previous_def)

lemma marked_is_previous:
  assumes "has_role g n ''default'' \<or> has_role g n ''active'' \<or> has_role g n ''previous''"
  shows "marked_previous g n = has_role g n ''previous''"
proof
  assume m: "marked_previous g n"
  then have f: "node_attrs g n ''fillcolor'' = Some ''azure2''"
    by (auto simp: marked_previous_def node_get_def previous_fillcolor_def node_previous_def
          split: option.splits)
  have "\<not> has_role g n ''default''"
    using f by (simp add: has_role_def style_get_node_default) (simp add: node_default_def)
  moreover have "\<not> has_role g n ''active''"
    using f by (simp add: has_role_def style_get_node_active) (simp add: node_active_def)
  ultimately show "has_role g n ''previous''" using assms by blast
next
  assume "has_role g n ''previous''"
  then show "marked_previous g n" by (rule previous_is_marked)
qed

text \<open>
  C6. For a model that holds the graph \<open>g\<close> and whose state \<open>A\<close> the extractor accepts,
  \<open>A\<close> is a node of \<open>g\<close> and of the result, where it has the full attribute dictionary
  it has in \<open>g\<close>; every node of the result is a node of \<open>g\<close> with its attributes of \<open>g\<close>;
  the edges of the result are exactly the edges of \<open>g\<close> at \<open>A\<close> that leave \<open>A\<close> or come
  from a node marked previous, with their attributes; the nodes are \<open>A\<close> and the other
  ends of these edges. The mark is the fill colour of the previous role, which on a node that
  carries one of the three roles is the same as carrying the previous role. The graph of the
  model is returned as it was: \<^verbatim>\<open>_get_graph\<close> with \<^verbatim>\<open>show_roi\<close> leaves the model unchanged.
\<close>

theorem roi_extraction:
  assumes closed: "edges_closed g" and mg: "model_graph mdl = Some g"
    and r: "graph_roi pgv mdl t = Inr roi"
  shows "has_node g (model_state mdl) \<and> has_node roi (model_state mdl)
       \<and> node_own roi (model_state mdl) = node_attrs g (model_state mdl)
       \<and> (\<forall>n \<in> set (node_names roi). has_node g n \<and> node_own roi n = node_attrs g n)
       \<and> edges roi = map roi_edge (filter (roi_keep g (model_state mdl)) (incident g (model_state mdl)))
       \<and> (\<forall>e' \<in> set (edges roi). \<exists>e \<in> set (edges g). e' = roi_edge e)
       \<and> (\<forall>e \<in> set (edges g).
             (roi_edge e \<in> set (edges roi)) =
             ((e_src e = model_state mdl \<or> e_dst e = model_state mdl)
               \<and> (e_src e = model_state mdl \<or> marked_previous g (e_src e))))
       \<and> set (node_names roi) =
           insert (model_state mdl)
             (roi_new (model_state mdl) `
                set (filter (roi_keep g (model_state mdl)) (incident g (model_state mdl))))
       \<and> (\<forall>n. (has_role g n ''default'' \<or> has_role g n ''active'' \<or> has_role g n ''previous'')
               \<longrightarrow> marked_previous g n = has_role g n ''previous'')
       \<and> (\<forall>m t' res. get_graph_model pgv m mdl t' False True = Inr res \<longrightarrow> fst res = mdl)"
proof -
  let ?a = "model_state mdl"
  let ?f = "add_node (new_graph t) ?a (node_attrs g ?a)"
  let ?K = "filter (roi_keep g ?a) (incident g ?a)"
  from r mg have ha: "has_node g ?a" and roi: "roi = roi_loop g ?a (incident g ?a) ?f"
    by (auto simp: graph_roi_def split: if_splits)
  have f1: "has_node ?f ?a" by simp
  have nn: "node_names ?f = [?a]"
    by (simp add: node_names_add_node has_node_def new_graph_def) (simp add: node_names_def new_graph_def)
  have hf: "has_node ?f n = (n = ?a)" for n
    by (simp add: has_node_names nn)
  have nh: "\<not> has_node (new_graph t) ?a" by (simp add: has_node_def new_graph_def)
  have oa: "node_own ?f ?a = node_attrs g ?a" using nh by (simp add: node_own_add_node)
  have f2: "\<forall>n. has_node ?f n \<longrightarrow> node_own ?f n = node_attrs g n"
  proof (intro allI impI)
    fix n assume "has_node ?f n"
    then have "n = ?a" by (simp only: hf)
    then show "node_own ?f n = node_attrs g n" using oa by simp
  qed
  have f3: "\<forall>t \<in> set (incident g ?a). e_src t = ?a \<or> e_dst t = ?a"
    by (simp add: set_incident)
  have ef: "edges ?f = []" by (simp add: new_graph_def)
  from roi_loop_result[OF f1 f2 f3]
  have p1: "has_node roi ?a"
    and p2: "\<forall>n. has_node roi n \<longrightarrow> node_own roi n = node_attrs g n"
    and p3: "edges roi = map roi_edge ?K"
    and p4: "set (node_names roi) = insert ?a (roi_new ?a ` set ?K)"
    unfolding roi[symmetric] ef nn by simp_all
  have newg: "has_node g (roi_new ?a e)" if "e \<in> set ?K" for e
  proof -
    from that have "e \<in> set (edges g)" by (simp add: set_incident)
    then show ?thesis using closed by (simp add: edges_closed_def roi_new_def)
  qed
  have q1: "\<forall>n \<in> set (node_names roi). has_node g n \<and> node_own roi n = node_attrs g n"
  proof
    fix n assume n: "n \<in> set (node_names roi)"
    then have "has_node roi n" by (simp add: has_node_names)
    then have o: "node_own roi n = node_attrs g n" using p2 by blast
    from n p4 have "n = ?a \<or> n \<in> roi_new ?a ` set ?K" by simp
    then have "has_node g n" using ha newg by blast
    with o show "has_node g n \<and> node_own roi n = node_attrs g n" by simp
  qed
  have q2: "\<forall>e' \<in> set (edges roi). \<exists>e \<in> set (edges g). e' = roi_edge e"
    by (auto simp: p3 set_incident)
  have inj: "roi_edge e = roi_edge e' \<Longrightarrow> e_src e = e_src e' \<and> e_dst e = e_dst e'" for e e'
    by (simp add: roi_edge_def)
  have q3: "\<forall>e \<in> set (edges g).
             (roi_edge e \<in> set (edges roi)) =
             ((e_src e = ?a \<or> e_dst e = ?a) \<and> (e_src e = ?a \<or> marked_previous g (e_src e)))"
  proof
    fix e assume e: "e \<in> set (edges g)"
    show "(roi_edge e \<in> set (edges roi)) =
             ((e_src e = ?a \<or> e_dst e = ?a) \<and> (e_src e = ?a \<or> marked_previous g (e_src e)))"
    proof
      assume "roi_edge e \<in> set (edges roi)"
      then obtain e' where e': "e' \<in> set ?K" "roi_edge e = roi_edge e'"
        by (auto simp: p3)
      from e'(1) have "(e_src e' = ?a \<or> e_dst e' = ?a) \<and> roi_keep g ?a e'"
        by (simp add: set_incident)
      then show "(e_src e = ?a \<or> e_dst e = ?a) \<and> (e_src e = ?a \<or> marked_previous g (e_src e))"
        using inj[OF e'(2)] by (simp add: roi_keep_def)
    next
      assume "(e_src e = ?a \<or> e_dst e = ?a) \<and> (e_src e = ?a \<or> marked_previous g (e_src e))"
      then have "e \<in> set ?K" using e by (simp add: set_incident roi_keep_def)
      then show "roi_edge e \<in> set (edges roi)" by (simp add: p3)
    qed
  qed
  have q4: "\<forall>n. (has_role g n ''default'' \<or> has_role g n ''active'' \<or> has_role g n ''previous'')
               \<longrightarrow> marked_previous g n = has_role g n ''previous''"
    using marked_is_previous by blast
  have q5: "\<forall>m t' res. get_graph_model pgv m mdl t' False True = Inr res \<longrightarrow> fst res = mdl"
    using mg by (auto simp: get_graph_model_def Let_def split: sum.splits)
  have q0: "node_own roi ?a = node_attrs g ?a" using p1 p2 by blast
  show ?thesis
    by (intro conjI) (rule ha, rule p1, rule q0, rule q1, rule p3, rule q2, rule q3, rule p4, rule q4, rule q5)
qed

theorem roi_extraction_witness:
  "edges_closed g_roi \<and> model_graph mdl_roi = Some g_roi
   \<and> (\<exists>roi. graph_roi True mdl_roi (TitleStr ''M'') = Inr roi
         \<and> has_node roi ''B''
         \<and> map (\<lambda>e. (e_src e, e_dst e)) (edges roi) = [(''B'', ''C''), (''A'', ''B'')]
         \<and> node_own roi ''B'' = node_attrs g_roi ''B'')"
proof -
  have c: "edges_closed g_roi" by (simp add: edges_closed_def g_roi_def has_node_def)
  have m: "model_graph mdl_roi = Some g_roi" by (simp add: mdl_roi_def)
  have s: "model_state mdl_roi = ''B''" by (simp add: mdl_roi_def)
  obtain roi where r: "graph_roi True mdl_roi (TitleStr ''M'') = Inr roi"
    by (simp add: graph_roi_def mdl_roi_def g_roi_def has_node_def)
  have k: "filter (roi_keep g_roi ''B'') (incident g_roi ''B'')
            = [Edge ''B'' ''C'' None [''label'' \<mapsto> ''go''], Edge ''A'' ''B'' None [''label'' \<mapsto> ''go'']]"
    by (simp add: incident_def roi_keep_def marked_previous_def g_roi_def eval_defs)
  from roi_extraction[OF c m r]
  have "has_node roi ''B''" and "node_own roi ''B'' = node_attrs g_roi ''B''"
    and "edges roi = map roi_edge (filter (roi_keep g_roi ''B'') (incident g_roi ''B''))"
    by (simp_all add: s)
  then have x: "has_node roi ''B'' \<and> map (\<lambda>e. (e_src e, e_dst e)) (edges roi) = [(''B'', ''C''), (''A'', ''B'')]
         \<and> node_own roi ''B'' = node_attrs g_roi ''B''"
    by (simp add: k roi_edge_def)
  show ?thesis
    by (intro conjI exI[of _ roi]) (rule c, rule m, rule r, simp_all add: x)
qed

subsection \<open>One edge for every pair of leaves, with merged labels\<close>

lemma add_edges_from_resolve:
  "add_edges_from m label key src ltail ts g =
     (case resolve_from m label key src ltail ts of
        Inl e \<Rightarrow> Inl e
      | Inr rs \<Rightarrow> Inr (fold draw rs g))"
  by (induction ts arbitrary: g) (auto simp: draw_def split: sum.splits)

lemma add_edges_event_resolve:
  "add_edges_event m label items g =
     (case resolve_event m label items of
        Inl e \<Rightarrow> Inl e
      | Inr rs \<Rightarrow> Inr (fold draw rs g))"
  by (induction items arbitrary: g) (auto simp: add_edges_from_resolve split: sum.splits)

lemma add_edges_resolve:
  "add_edges m evs g =
     (case resolve_events m evs of
        Inl e \<Rightarrow> Inl e
      | Inr rs \<Rightarrow> Inr (fold draw rs g))"
  by (induction evs arbitrary: g) (auto simp: add_edges_event_resolve split: sum.splits)


lemma is_edge_pair: "is_edge u v = (\<lambda>e. e_pair e = (u, v))"
  by (rule ext) (auto simp: is_edge_def e_pair_def)

lemma e_pair_edge_update [simp]: "e_pair (edge_update d e) = e_pair e"
  by (simp add: e_pair_def)

lemma find_index_of_find:
  "find_index_of P xs = Some i \<Longrightarrow> find P xs = Some (xs ! i)"
proof (induction xs arbitrary: i)
  case Nil
  then show ?case by simp
next
  case (Cons x xs)
  then show ?case by (cases "P x") auto
qed

lemma find_index_of_None_find: "find_index_of P xs = None \<Longrightarrow> find P xs = None"
  by (simp add: find_index_of_None find_None_iff)

lemma find_update_first:
  "find_index_of P xs = Some i \<Longrightarrow> P y \<Longrightarrow> find P (xs[i := y]) = Some y"
proof (induction xs arbitrary: i)
  case Nil
  then show ?case by simp
next
  case (Cons x xs)
  then show ?case by (cases "P x") auto
qed

lemma find_update_other:
  "i < length xs \<Longrightarrow> \<not> Q (xs ! i) \<Longrightarrow> \<not> Q y \<Longrightarrow> find Q (xs[i := y]) = find Q xs"
proof (induction xs arbitrary: i)
  case Nil
  then show ?case by simp
next
  case (Cons x xs)
  then show ?case by (cases i) auto
qed

lemma find_append_one:
  "find Q (xs @ [y]) = (case find Q xs of Some x \<Rightarrow> Some x | None \<Rightarrow> if Q y then Some y else None)"
  by (induction xs) auto

lemma edge_label_of_relabel:
  "edge_label_of (edge_update [''label'' \<mapsto> l] e) = l"
  by (simp add: edge_label_of_def update_attrs_def)

lemma draw_cases:
  "draw r g =
     (if degenerate r then g
      else case find_index_of (\<lambda>e. e_pair e = rt_pair r) (edges g) of
        Some i \<Rightarrow>
          g\<lparr>edges := (edges g)
             [i := edge_update [''label'' \<mapsto> edge_label_of (edges g ! i) @ '' | '' @ rt_label r]
                     (edges g ! i)]\<rparr>
      | None \<Rightarrow>
          (ensure_node (ensure_node g (rt_src r)) (rt_dst r))
            \<lparr>edges := edges g @ [Edge (rt_src r) (rt_dst r) None
                 [''label'' \<mapsto> rt_label r, ''ltail'' \<mapsto> rt_ltail r, ''lhead'' \<mapsto> rt_lhead r]]\<rparr>)"
  by (simp add: draw_def draw_edge_def degenerate_def is_edge_pair rt_pair_def add_edge_None
        split: option.splits)

lemma draw_pairs:
  "map e_pair (edges (draw r g)) =
     map e_pair (edges g) @
       (if degenerate r \<or> rt_pair r \<in> set (map e_pair (edges g)) then [] else [rt_pair r])"
proof (cases "degenerate r")
  case True
  then show ?thesis by (simp add: draw_cases)
next
  case nd: False
  show ?thesis
  proof (cases "find_index_of (\<lambda>e. e_pair e = rt_pair r) (edges g)")
    case None
    then have "rt_pair r \<notin> set (map e_pair (edges g))"
      by (auto simp: find_index_of_None)
    then show ?thesis using nd None by (simp add: draw_cases e_pair_def rt_pair_def)
  next
    case (Some i)
    from find_index_of_Some[OF Some] have i: "i < length (edges g)" "e_pair (edges g ! i) = rt_pair r"
      by auto
    then have in_set: "rt_pair r \<in> set (map e_pair (edges g))"
      by (metis length_map nth_map nth_mem)
    have "map e_pair ((edges g)[i := edge_update d (edges g ! i)]) = map e_pair (edges g)" for d
      by (simp add: map_update list_update_same_conv i(1))
    then show ?thesis using nd Some in_set by (simp add: draw_cases)
  qed
qed

lemma draw_label_at:
  "label_at (draw r g) p =
     (if \<not> degenerate r \<and> rt_pair r = p
      then Some (case label_at g p of None \<Rightarrow> rt_label r | Some l \<Rightarrow> l @ '' | '' @ rt_label r)
      else label_at g p)"
proof (cases "degenerate r")
  case True
  then show ?thesis by (simp add: draw_cases)
next
  case nd: False
  show ?thesis
  proof (cases "find_index_of (\<lambda>e. e_pair e = rt_pair r) (edges g)")
    case None
    have f: "find (\<lambda>e. e_pair e = rt_pair r) (edges g) = None"
      by (rule find_index_of_None_find[OF None])
    show ?thesis
      using nd None f
      by (auto simp: draw_cases label_at_def find_append_one e_pair_def rt_pair_def
            edge_label_of_def split: option.splits)
  next
    case (Some i)
    from find_index_of_Some[OF Some] have i: "i < length (edges g)" "e_pair (edges g ! i) = rt_pair r"
      by auto
    let ?y = "edge_update [''label'' \<mapsto> edge_label_of (edges g ! i) @ '' | '' @ rt_label r] (edges g ! i)"
    have dg: "edges (draw r g) = (edges g)[i := ?y]" using nd Some by (simp add: draw_cases)
    show ?thesis
    proof (cases "rt_pair r = p")
      case True
      have old: "find (\<lambda>e. e_pair e = p) (edges g) = Some (edges g ! i)"
        using find_index_of_find[OF Some] True by simp
      have "find (\<lambda>e. e_pair e = rt_pair r) ((edges g)[i := ?y]) = Some ?y"
        by (rule find_update_first[OF Some]) (simp add: i(2))
      then show ?thesis using nd True old
        by (simp add: label_at_def dg edge_label_of_relabel)
    next
      case False
      have "find (\<lambda>e. e_pair e = p) ((edges g)[i := ?y]) = find (\<lambda>e. e_pair e = p) (edges g)"
        by (rule find_update_other[OF i(1)]) (use False i(2) in simp_all)
      then show ?thesis using False by (simp add: label_at_def dg)
    qed
  qed
qed


lemma join_snoc: "ls \<noteq> [] \<Longrightarrow> join sep (ls @ [l]) = join sep ls @ sep @ l"
  by (induction sep ls rule: join.induct) auto

lemma join_cons: "ls \<noteq> [] \<Longrightarrow> join sep (l # ls) = l @ sep @ join sep ls"
  by (cases ls) auto

lemma drawn_Cons: "drawn (r # rs) = (if degenerate r then drawn rs else r # drawn rs)"
  by (simp add: drawn_def)

lemma fold_draw_pairs:
  "distinct (map e_pair (edges g)) \<Longrightarrow>
     distinct (map e_pair (edges (fold draw rs g)))
     \<and> set (map e_pair (edges (fold draw rs g))) = set (map e_pair (edges g)) \<union> rt_pair ` set (drawn rs)"
proof (induction rs arbitrary: g)
  case Nil
  then show ?case by (simp add: drawn_def)
next
  case (Cons r rs)
  have d: "distinct (map e_pair (edges (draw r g)))"
    using Cons.prems by (simp add: draw_pairs)
  have s: "set (map e_pair (edges (draw r g)))
            = set (map e_pair (edges g)) \<union> (if degenerate r then {} else {rt_pair r})"
    by (auto simp: draw_pairs)
  from Cons.IH[OF d] show ?case
    unfolding s by (auto simp: drawn_Cons)
qed

text \<open>The labels an edge accumulates: what it had, then the labels drawn onto it.\<close>

lemma fold_draw_label_at:
  "label_at (fold draw rs g) p =
     (if labels_for (drawn rs) p = [] then label_at g p
      else Some (join '' | ''
                  ((case label_at g p of None \<Rightarrow> [] | Some l \<Rightarrow> [l]) @ labels_for (drawn rs) p)))"
proof (induction rs arbitrary: g)
  case Nil
  then show ?case by (simp add: drawn_def labels_for_def)
next
  case (Cons r rs)
  note ih = Cons.IH[of "draw r g"]
  show ?case
  proof (cases "\<not> degenerate r \<and> rt_pair r = p")
    case False
    then have l: "labels_for (drawn (r # rs)) p = labels_for (drawn rs) p"
      by (auto simp: drawn_Cons labels_for_def)
    have a: "label_at (draw r g) p = label_at g p" using False by (auto simp: draw_label_at)
    show ?thesis using ih by (simp add: l a)
  next
    case True
    then have l: "labels_for (drawn (r # rs)) p = rt_label r # labels_for (drawn rs) p"
      by (simp add: drawn_Cons labels_for_def)
    let ?old = "case label_at g p of None \<Rightarrow> [] | Some l \<Rightarrow> [l]"
    have a: "label_at (draw r g) p = Some (join '' | '' (?old @ [rt_label r]))"
      using True by (auto simp: draw_label_at split: option.splits)
    show ?thesis
    proof (cases "labels_for (drawn rs) p = []")
      case e: True
      then show ?thesis using ih a by (simp add: l)
    next
      case ne: False
      have "join '' | '' ([join '' | '' (?old @ [rt_label r])] @ labels_for (drawn rs) p)
          = join '' | '' (?old @ rt_label r # labels_for (drawn rs) p)"
        using ne by (auto simp: join_cons split: option.splits)
      then show ?thesis using ih a ne by (simp add: l)
    qed
  qed
qed

lemma find_distinct:
  "distinct (map f xs) \<Longrightarrow> x \<in> set xs \<Longrightarrow> find (\<lambda>y. f y = f x) xs = Some x"
  by (induction xs) auto

lemma edges_add_nodes:
  "edges (snd (add_nodes ss c sg)) = edges (snd sg)"
  "edges (snd (add_nodes_state st c sg)) = edges (snd sg)"
  by (induction ss c sg and st c sg rule: add_nodes_add_nodes_state.induct)
     (auto simp: add_node_in_def add_subgraph_def Let_def)


lemma get_graph_edges:
  assumes "get_graph pgv m t = Inr g"
  obtains rs g0 where "resolved_transitions m = Inr rs" "edges g0 = []"
    "edges g = edges (fold draw rs g0)"
proof -
  let ?t = "if t = TitleFalse then TitleStr [] else t"
  let ?g0 = "snd (add_nodes (map snd (states m)) [] ([], new_graph ?t))"
  have e0: "edges ?g0 = []" by (simp add: edges_add_nodes new_graph_def)
  from assms obtain rs where rs: "resolve_events m (map snd (events m)) = Inr rs"
    and g: "g = (fold draw rs ?g0)\<lparr>style_attrs := Some style_attributes\<rparr>"
    by (auto simp: get_graph_def Let_def add_edges_resolve split: if_splits sum.splits)
  have "edges g = edges (fold draw rs ?g0)" by (simp add: g)
  with rs e0 show ?thesis using that by (simp add: resolved_transitions_def)
qed

lemma built_edges:
  fixes g g0 :: agraph
  assumes "edges g0 = []" "edges g = edges (fold draw rs g0)"
  shows "distinct (map e_pair (edges g))"
    and "set (map e_pair (edges g)) = rt_pair ` set (drawn rs)"
    and "\<forall>e \<in> set (edges g). edge_label_of e = join '' | '' (labels_for (drawn rs) (e_pair e))"
proof -
  have d0: "distinct (map e_pair (edges g0))" using assms(1) by simp
  from fold_draw_pairs[OF d0, of rs]
  show d: "distinct (map e_pair (edges g))"
    and s: "set (map e_pair (edges g)) = rt_pair ` set (drawn rs)"
    using assms by simp_all
  have la: "label_at g p =
     (if labels_for (drawn rs) p = [] then None
      else Some (join '' | '' (labels_for (drawn rs) p)))" for p
  proof -
    have "label_at g p = label_at (fold draw rs g0) p" by (simp add: label_at_def assms(2))
    moreover have "label_at g0 p = None" by (simp add: label_at_def assms(1))
    ultimately show ?thesis by (simp add: fold_draw_label_at)
  qed
  show "\<forall>e \<in> set (edges g). edge_label_of e = join '' | '' (labels_for (drawn rs) (e_pair e))"
  proof
    fix e assume e: "e \<in> set (edges g)"
    have "find (\<lambda>y. e_pair y = e_pair e) (edges g) = Some e"
      by (rule find_distinct[OF d e])
    then have "label_at g (e_pair e) = Some (edge_label_of e)" by (simp add: label_at_def)
    then show "edge_label_of e = join '' | '' (labels_for (drawn rs) (e_pair e))"
      using la[of "e_pair e"] by (simp split: if_splits)
  qed
qed

text \<open>
  C4, as amended. A graph that the builder returns never has two edges between the same
  pair of nodes. The transitions that are drawn are those of the events that are not
  suppressed, without the degenerate ones; the pairs of leaves they resolve to are exactly
  the pairs that have an edge, each has exactly one edge, and the label of that edge is the
  labels of the drawn transitions that resolve to the pair, in the order of the builder,
  joined by \<^verbatim>\<open>" | "\<close>.
\<close>

theorem edges_merged:
  assumes "get_graph pgv m t = Inr g"
  shows "\<exists>rs. resolved_transitions m = Inr rs
     \<and> distinct (map e_pair (edges g))
     \<and> set (map e_pair (edges g)) = rt_pair ` set (drawn rs)
     \<and> (\<forall>e \<in> set (edges g). edge_label_of e = join '' | '' (labels_for (drawn rs) (e_pair e)))
     \<and> (\<forall>r \<in> set (drawn rs). \<exists>e \<in> set (edges g).
           e_pair e = rt_pair r \<and> (\<forall>e' \<in> set (edges g). e_pair e' = rt_pair r \<longrightarrow> e' = e))"
proof (rule get_graph_edges[OF assms])
  fix rs g0
  assume rs: "resolved_transitions m = Inr rs" and e0: "edges g0 = []"
    and eg: "edges g = edges (fold draw rs g0)"
  note b = built_edges[OF e0 eg]
  have one: "\<forall>r \<in> set (drawn rs). \<exists>e \<in> set (edges g).
           e_pair e = rt_pair r \<and> (\<forall>e' \<in> set (edges g). e_pair e' = rt_pair r \<longrightarrow> e' = e)"
  proof
    fix r assume "r \<in> set (drawn rs)"
    then have "rt_pair r \<in> set (map e_pair (edges g))" using b(2) by blast
    then obtain e where e: "e \<in> set (edges g)" "e_pair e = rt_pair r" by auto
    have "\<forall>e' \<in> set (edges g). e_pair e' = rt_pair r \<longrightarrow> e' = e"
      using b(1) e by (auto simp: distinct_map inj_on_def)
    with e show "\<exists>e \<in> set (edges g).
           e_pair e = rt_pair r \<and> (\<forall>e' \<in> set (edges g). e_pair e' = rt_pair r \<longrightarrow> e' = e)"
      by blast
  qed
  show ?thesis
    by (intro exI[of _ rs] conjI) (rule rs, rule b(1), rule b(2), rule b(3), rule one)
qed


theorem edges_merged_witness:
  "get_graph True m_two (TitleStr ''M'') = Inr g_two
   \<and> (\<exists>rs. resolved_transitions m_two = Inr rs \<and> map rt_label (drawn rs) = [''go'', ''stop'']
         \<and> map edge_label_of (edges g_two) = [''go | stop''])"
proof -
  have rs: "resolved_transitions m_two =
      Inr [RTrans ''A'' ''B'' ''A'' ''B'' ''go'' [] [], RTrans ''A'' ''B'' ''A'' ''B'' ''stop'' [] []]"
    by (simp add: resolved_transitions_def m_two_def suppressed_def get_state_def transition_label_def)
  have dr: "drawn [RTrans ''A'' ''B'' ''A'' ''B'' ''go'' [] [], RTrans ''A'' ''B'' ''A'' ''B'' ''stop'' [] []]
      = [RTrans ''A'' ''B'' ''A'' ''B'' ''go'' [] [], RTrans ''A'' ''B'' ''A'' ''B'' ''stop'' [] []]"
    by (simp add: drawn_def degenerate_def)
  have ed: "edges g_two = [Edge ''A'' ''B'' None
                 [''ltail'' \<mapsto> [], ''lhead'' \<mapsto> [], ''label'' \<mapsto> ''go | stop'']]"
    by (simp add: g_two_def)
  from edges_merged[OF built_two] rs
  have "\<forall>e \<in> set (edges g_two). edge_label_of e = join '' | ''
          (labels_for (drawn [RTrans ''A'' ''B'' ''A'' ''B'' ''go'' [] [], RTrans ''A'' ''B'' ''A'' ''B'' ''stop'' [] []]) (e_pair e))"
    by auto
  then have "map edge_label_of (edges g_two) = [''go | stop'']"
    unfolding dr ed by (simp add: labels_for_def e_pair_def rt_pair_def)
  then show ?thesis using built_two rs dr by simp
qed

text \<open>
  The sentence of the specification fails when one of the two transitions belongs to an event that is
  suppressed: \<^verbatim>\<open>to_B\<close> and \<^verbatim>\<open>go\<close> both lead from A to B, and the edge is labelled
  \<^verbatim>\<open>go\<close> alone.
\<close>

theorem edges_merged_counterexample:
  "resolve_event m_auto ''to_B'' (transitions to_B) =
      Inr [RTrans ''A'' ''B'' ''A'' ''B'' ''to_B'' [] [], RTrans ''B'' ''B'' ''B'' ''B'' ''to_B'' [] []]
   \<and> resolve_event m_auto ''go'' [(''A'', [Transition (Some ''A'') ''B'' []])] =
      Inr [RTrans ''A'' ''B'' ''A'' ''B'' ''go'' [] []]
   \<and> (\<exists>g. get_graph True m_auto (TitleStr ''M'') = Inr g
         \<and> map (\<lambda>e. (e_src e, e_dst e, edge_label_of e)) (edges g) = [(''A'', ''B'', ''go'')])"
proof -
  have a: "resolve_event m_auto ''to_B'' (transitions to_B) =
      Inr [RTrans ''A'' ''B'' ''A'' ''B'' ''to_B'' [] [], RTrans ''B'' ''B'' ''B'' ''B'' ''to_B'' [] []]"
    by (simp add: m_auto_def to_B_def get_state_def transition_label_def)
  have b: "resolve_event m_auto ''go'' [(''A'', [Transition (Some ''A'') ''B'' []])] =
      Inr [RTrans ''A'' ''B'' ''A'' ''B'' ''go'' [] []]"
    by (simp add: m_auto_def get_state_def transition_label_def)
  have c: "\<exists>g. get_graph True m_auto (TitleStr ''M'') = Inr g
         \<and> map (\<lambda>e. (e_src e, e_dst e, edge_label_of e)) (edges g) = [(''A'', ''B'', ''go'')]"
    unfolding get_graph_def new_graph_def graph_attr_eval
    by (simp add: m_auto_def to_B_def eval_defs)
  from a b c show ?thesis by simp
qed

subsection \<open>The edges of a blanket event\<close>

lemma resolve_from_length:
  "resolve_from m l k src lt ts = Inr rs \<Longrightarrow> length rs = length ts"
  by (induction ts arbitrary: rs) (auto split: sum.splits if_splits)

lemma resolve_event_length:
  "resolve_event m l items = Inr rs \<Longrightarrow> length rs = sum_list (map (\<lambda>item. length (snd item)) items)"
proof (induction items arbitrary: rs)
  case Nil
  then show ?case by simp
next
  case (Cons item rest)
  then show ?case
    by (auto split: sum.splits if_splits dest!: resolve_from_length)
qed

lemma sum_list_ones:
  "list_all (\<lambda>item. length (snd item) = 1) items \<Longrightarrow>
     sum_list (map (\<lambda>item. length (snd item)) items) = length items"
  by (induction items) auto

lemma length_drawn: "length (drawn rs) = length rs - length (filter degenerate rs)"
proof -
  have "length (filter degenerate rs) + length (drawn rs) = length rs"
    unfolding drawn_def by (rule sum_length_filter_compl)
  then show ?thesis by simp
qed

text \<open>
  C5, as amended. Let the machine have one event, named with the prefix \<^verbatim>\<open>to_\<close>, with
  one transition from each of the N states. When auto transitions are hidden the built
  graph has no edge. When they are shown, it has one edge for every distinct pair of leaves
  that the transitions which are not degenerate resolve to: at most N minus the number of
  degenerate transitions, and exactly that many when no two of them resolve to the same
  pair.
\<close>

theorem auto_transition_edges:
  assumes ev: "events m = [(n, ev)]" and pre: "take 3 (ev_name ev) = ''to_''"
    and cnt: "length (transitions ev) = length (states m)"
    and one: "list_all (\<lambda>item. length (snd item) = 1) (transitions ev)"
    and b: "get_graph pgv m t = Inr g"
  shows "if show_auto_transitions m
         then \<exists>rs. resolve_event m (ev_name ev) (transitions ev) = Inr rs
                \<and> length rs = length (states m)
                \<and> length (edges g) = length (remdups (map rt_pair (drawn rs)))
                \<and> length (edges g) \<le> length (states m) - length (filter degenerate rs)
                \<and> (distinct (map rt_pair (drawn rs)) \<longrightarrow>
                     length (edges g) = length (states m) - length (filter degenerate rs))
         else edges g = []"
proof (rule get_graph_edges[OF b])
  fix rs g0
  assume rs: "resolved_transitions m = Inr rs" and e0: "edges g0 = []"
    and eg: "edges g = edges (fold draw rs g0)"
  note be = built_edges[OF e0 eg]
  have len: "length (edges g) = length (remdups (map rt_pair (drawn rs)))"
  proof -
    have "length (edges g) = card (set (map e_pair (edges g)))"
      using distinct_card[OF be(1)] by simp
    also have "\<dots> = card (set (map rt_pair (drawn rs)))" using be(2) by simp
    also have "\<dots> = length (remdups (map rt_pair (drawn rs)))"
      by (simp add: length_remdups_card_conv)
    finally show ?thesis .
  qed
  show ?thesis
  proof (cases "show_auto_transitions m")
    case False
    then have "suppressed m ev" using pre cnt by (simp add: suppressed_def)
    then have "rs = []" using rs ev by (simp add: resolved_transitions_def)
    then have "edges g = []" using len by (simp add: drawn_def)
    with False show ?thesis by simp
  next
    case True
    then have ns: "\<not> suppressed m ev" by (simp add: suppressed_def)
    have r1: "resolve_event m (ev_name ev) (transitions ev) = Inr rs"
      using rs ev ns by (auto simp: resolved_transitions_def split: sum.splits)
    have l: "length rs = length (states m)"
      using resolve_event_length[OF r1] sum_list_ones[OF one] cnt by simp
    have le: "length (edges g) \<le> length (states m) - length (filter degenerate rs)"
    proof -
      have "length (remdups (map rt_pair (drawn rs))) \<le> length (map rt_pair (drawn rs))"
        by (rule length_remdups_leq)
      then show ?thesis using len l by (simp add: length_drawn)
    qed
    have eq: "distinct (map rt_pair (drawn rs)) \<longrightarrow>
                     length (edges g) = length (states m) - length (filter degenerate rs)"
      using len l by (simp add: distinct_remdups_id length_drawn)
    have "\<exists>rs. resolve_event m (ev_name ev) (transitions ev) = Inr rs
                \<and> length rs = length (states m)
                \<and> length (edges g) = length (remdups (map rt_pair (drawn rs)))
                \<and> length (edges g) \<le> length (states m) - length (filter degenerate rs)
                \<and> (distinct (map rt_pair (drawn rs)) \<longrightarrow>
                     length (edges g) = length (states m) - length (filter degenerate rs))"
      by (intro exI[of _ rs] conjI) (rule r1, rule l, rule len, rule le, rule eq)
    with True show ?thesis by simp
  qed
qed

theorem auto_transition_edges_witness:
  "events m_to = [(''to_B'', to_B)] \<and> take 3 (ev_name to_B) = ''to_''
   \<and> length (transitions to_B) = length (states m_to)
   \<and> list_all (\<lambda>item. length (snd item) = 1) (transitions to_B)
   \<and> show_auto_transitions m_to
   \<and> (\<exists>g. get_graph True m_to (TitleStr ''M'') = Inr g \<and> length (edges g) = 2)
   \<and> (\<exists>g. get_graph True (m_to\<lparr>show_auto_transitions := False\<rparr>) (TitleStr ''M'') = Inr g
          \<and> edges g = [])"
proof -
  have h1: "events m_to = [(''to_B'', to_B)]" by (simp add: m_to_def)
  have h2: "take 3 (ev_name to_B) = ''to_''" by (simp add: to_B_def)
  have h3: "length (transitions to_B) = length (states m_to)" by (simp add: to_B_def m_to_def)
  have h4: "list_all (\<lambda>item. length (snd item) = 1) (transitions to_B)" by (simp add: to_B_def)
  have h5: "show_auto_transitions m_to" by (simp add: m_to_def)
  obtain g where g: "get_graph True m_to (TitleStr ''M'') = Inr g"
    unfolding get_graph_def new_graph_def graph_attr_eval
    by (simp add: m_to_def to_B_def eval_defs)
  have rs: "resolve_event m_to (ev_name to_B) (transitions to_B) =
      Inr [RTrans ''A'' ''B'' ''A'' ''B'' ''to_B'' [] [], RTrans ''B'' ''B'' ''B'' ''B'' ''to_B'' [] []]"
    by (simp add: m_to_def to_B_def get_state_def transition_label_def)
  from auto_transition_edges[OF h1 h2 h3 h4 g] h5 rs
  have "length (edges g) = length (remdups (map rt_pair (drawn
           [RTrans ''A'' ''B'' ''A'' ''B'' ''to_B'' [] [], RTrans ''B'' ''B'' ''B'' ''B'' ''to_B'' [] []])))"
    by auto
  then have two: "length (edges g) = 2"
    by (simp add: drawn_def degenerate_def rt_pair_def)
  let ?m = "m_to\<lparr>show_auto_transitions := False\<rparr>"
  have k1: "events ?m = [(''to_B'', to_B)]" by (simp add: m_to_def)
  have k3: "length (transitions to_B) = length (states ?m)" by (simp add: to_B_def m_to_def)
  obtain g' where g': "get_graph True ?m (TitleStr ''M'') = Inr g'"
    unfolding get_graph_def new_graph_def graph_attr_eval
    by (simp add: m_to_def to_B_def eval_defs)
  from auto_transition_edges[OF k1 h2 k3 h4 g'] have none: "edges g' = []" by simp
  show ?thesis using h1 h2 h3 h4 h5 g two g' none by blast
qed

text \<open>
  The sentence of the specification fails when two sources resolve to the same leaf: of the three
  transitions of \<^verbatim>\<open>to_X\<close> none is degenerate, and the graph has two edges.
\<close>

theorem auto_transition_edges_counterexample:
  "events m_fan = [(''to_X'', to_X)] \<and> take 3 (ev_name to_X) = ''to_''
   \<and> length (transitions to_X) = 3 \<and> length (states m_fan) = 3
   \<and> map (\<lambda>item. length (snd item)) (transitions to_X) = [1, 1, 1]
   \<and> show_auto_transitions m_fan
   \<and> (\<exists>rs. resolve_event m_fan (ev_name to_X) (transitions to_X) = Inr rs
          \<and> filter degenerate rs = [])
   \<and> (\<exists>g. get_graph True m_fan (TitleStr ''M'') = Inr g
          \<and> map (\<lambda>e. (e_src e, e_dst e, edge_label_of e)) (edges g)
              = [(''P_1'', ''X'', ''to_X | to_X''), (''X'', ''X'', ''to_X'')])"
proof -
  have a: "\<exists>rs. resolve_event m_fan (ev_name to_X) (transitions to_X) = Inr rs
          \<and> filter degenerate rs = []"
    by (simp add: m_fan_def to_X_def get_state_def transition_label_def degenerate_def)
  have b: "\<exists>g. get_graph True m_fan (TitleStr ''M'') = Inr g
          \<and> map (\<lambda>e. (e_src e, e_dst e, edge_label_of e)) (edges g)
              = [(''P_1'', ''X'', ''to_X | to_X''), (''X'', ''X'', ''to_X'')]"
    unfolding get_graph_def new_graph_def graph_attr_eval
    by (simp add: m_fan_def to_X_def eval_defs)
  have c: "events m_fan = [(''to_X'', to_X)] \<and> take 3 (ev_name to_X) = ''to_''
   \<and> length (transitions to_X) = 3 \<and> length (states m_fan) = 3
   \<and> map (\<lambda>item. length (snd item)) (transitions to_X) = [1, 1, 1]
   \<and> show_auto_transitions m_fan"
    by (simp add: m_fan_def to_X_def)
  from a b c show ?thesis by simp
qed

subsection \<open>The builder returns well-formed graphs\<close>

text \<open>
  The theorems about the transition hook assume \<open>graph_ok\<close>. Every graph of
  \<^verbatim>\<open>AGraph.get_graph\<close> satisfies it, and so does the graph \<^verbatim>\<open>_get_graph\<close> stores on a
  model; the hook keeps it (\<open>change_state_graph_ok\<close>).
\<close>

lemma add_node_in_frame:
  "node_names (add_node_in g c n a) = node_names g @ (if has_node g n then [] else [n])"
  "node_attr (add_node_in g c n a) = node_attr g"
proof -
  have "node_names (add_node_in g c n a) = node_names (add_node g n a)"
    by (simp add: add_node_in_def Let_def)
  then show "node_names (add_node_in g c n a) = node_names g @ (if has_node g n then [] else [n])"
    by (simp only: node_names_add_node)
  show "node_attr (add_node_in g c n a) = node_attr g"
    by (simp add: add_node_in_def Let_def add_node_def)
qed

lemma add_subgraph_frame:
  "node_names (add_subgraph g c n a) = node_names g"
  "node_attr (add_subgraph g c n a) = node_attr g"
  by (simp_all add: add_subgraph_def)

lemma add_nodes_inv:
  "distinct (node_names (snd sg)) \<Longrightarrow>
     distinct (node_names (snd (add_nodes ss c sg)))
     \<and> node_attr (snd (add_nodes ss c sg)) = node_attr (snd sg)"
  "distinct (node_names (snd sg)) \<Longrightarrow>
     distinct (node_names (snd (add_nodes_state st c sg)))
     \<and> node_attr (snd (add_nodes_state st c sg)) = node_attr (snd sg)"
proof (induction ss c sg and st c sg rule: add_nodes_add_nodes_state.induct)
  case (1 container sg)
  then show ?case by simp
next
  case (2 s ss container sg)
  then show ?case by simp
next
  case (3 n container seen g)
  then show ?case by (auto simp: add_node_in_frame has_node_names)
next
  case (4 n l container seen g)
  then show ?case by (auto simp: add_node_in_frame has_node_names)
next
  case (5 n l c cs container seen g)
  then show ?case by (auto simp: add_subgraph_frame)
qed

lemma draw_inv:
  assumes "distinct (node_names g)" "edges_closed g"
  shows "distinct (node_names (draw r g)) \<and> edges_closed (draw r g)
       \<and> node_attr (draw r g) = node_attr g"
proof (cases "degenerate r")
  case True
  then show ?thesis using assms by (simp add: draw_cases)
next
  case nd: False
  show ?thesis
  proof (cases "find_index_of (\<lambda>e. e_pair e = rt_pair r) (edges g)")
    case None
    let ?g1 = "ensure_node (ensure_node g (rt_src r)) (rt_dst r)"
    have d: "distinct (node_names ?g1)"
      using assms(1) by (auto simp: node_names_ensure_node has_node_names)
    have "edges_closed (?g1\<lparr>edges := edges g @ [Edge (rt_src r) (rt_dst r) None a]\<rparr>)" for a
      using assms(2) by (auto simp: edges_closed_def)
    moreover have "node_attr ?g1 = node_attr g" by (simp add: ensure_node_def)
    ultimately show ?thesis using nd None d by (simp add: draw_cases)
  next
    case (Some i)
    have "edges_closed (g\<lparr>edges := (edges g)[i := edge_update d (edges g ! i)]\<rparr>)" for d
    proof -
      have "e \<in> set ((edges g)[i := edge_update d (edges g ! i)]) \<Longrightarrow>
              \<exists>e0 \<in> set (edges g). e_src e = e_src e0 \<and> e_dst e = e_dst e0" for e
        using find_index_of_Some[OF Some]
        by (auto simp: set_conv_nth nth_list_update split: if_splits)
      then show ?thesis using assms(2) by (fastforce simp: edges_closed_def)
    qed
    then show ?thesis using nd Some assms(1) by (simp add: draw_cases)
  qed
qed

lemma fold_draw_inv:
  "distinct (node_names g) \<Longrightarrow> edges_closed g \<Longrightarrow>
     distinct (node_names (fold draw rs g)) \<and> edges_closed (fold draw rs g)
     \<and> node_attr (fold draw rs g) = node_attr g"
proof (induction rs arbitrary: g)
  case Nil
  then show ?case by simp
next
  case (Cons r rs)
  from draw_inv[OF Cons.prems] Cons.IH[of "draw r g"] show ?case by simp
qed

lemma get_graph_ok:
  assumes "get_graph pgv m t = Inr g"
  shows "graph_ok g"
proof -
  let ?t = "if t = TitleFalse then TitleStr [] else t"
  let ?g0 = "snd (add_nodes (map snd (states m)) [] ([], new_graph ?t))"
  from assms obtain rs where
    g: "g = (fold draw rs ?g0)\<lparr>style_attrs := Some style_attributes\<rparr>"
    by (auto simp: get_graph_def Let_def add_edges_resolve split: if_splits sum.splits)
  have n0: "distinct (node_names (snd ([] :: string list, new_graph ?t)))"
    by (simp add: node_names_def new_graph_def)
  from add_nodes_inv(1)[OF n0] have d0: "distinct (node_names ?g0)"
    and a0: "node_attr ?g0 = node_default"
    by (simp_all add: new_graph_def update_attrs_def)
  have c0: "edges_closed ?g0" by (simp add: edges_closed_def edges_add_nodes new_graph_def)
  from fold_draw_inv[OF d0 c0, of rs] a0 show ?thesis
    by (simp add: g graph_ok_def edges_closed_def has_node_def node_names_def)
qed

lemma set_node_state_graph_ok:
  assumes "graph_ok g" "set_node_state g n st = Inr g'"
  shows "graph_ok g'"
proof (cases "has_node g n")
  case True
  with assms(2) obtain d where "g' = g\<lparr>nodes := update_node n d (nodes g)\<rparr>"
    by (auto simp: set_node_state_def elim!: set_node_style_Inr)
  then show ?thesis using assms(1) by (simp add: graph_ok_def)
next
  case False
  with assms(2) obtain d where "g' = g\<lparr>subgraphs := update_cluster (cluster_path n) (restyle d) (subgraphs g)\<rparr>"
    by (auto simp: set_node_state_def elim!: set_graph_style_Inr)
  then show ?thesis using assms(1) by (simp add: graph_ok_def)
qed

lemma get_graph_model_ok:
  assumes "get_graph_model pgv m mdl t True False = Inr (mdl', g)"
  shows "graph_ok g \<and> model_graph mdl' = Some g"
proof -
  from assms obtain g0 t' where g0: "get_graph pgv m t' = Inr g0"
    and g: "set_node_state g0 (model_state mdl) ''active'' = Inr g"
    and m: "mdl' = mdl\<lparr>model_graph := Some g\<rparr>"
    by (auto simp: get_graph_model_def Let_def split: sum.splits if_splits)
  from set_node_state_graph_ok[OF get_graph_ok[OF g0] g] m show ?thesis by simp
qed

end
